theory Spec2Isabelle
  imports Main "HOL-Library.Sublist"
begin

section \<open>Runes and the UTF-8 decoder\<close>

text \<open>
  A Go string is a sequence of bytes; here it is a \<open>string\<close>, a list of 8-bit characters.
  A rune is a signed 32-bit code point, an \<open>int\<close> here (no arithmetic of the lexer leaves
  that range). \<open>Pos\<close> is the package's byte-offset type, an integer.
\<close>

type_synonym rune = int
type_synonym Pos = int

definition EOF :: rune where
  "EOF = - 1"

definition RuneError :: rune where
  "RuneError = 0xFFFD"

text \<open>
  \<open>utf8.DecodeRuneInString\<close> of the Go standard library: the first rune of the string and
  its width in bytes; \<open>(RuneError, 0)\<close> on the empty string and \<open>(RuneError, 1)\<close> on an
  encoding that is invalid, too short, overlong, a surrogate or beyond U+10FFFF. The lead
  byte gives the size and the range accepted for the second byte.
\<close>

fun DecodeRuneInString :: "string \<Rightarrow> rune \<times> int" where
  "DecodeRuneInString [] = (RuneError, 0)"
| "DecodeRuneInString (c0 # s) =
     (let s0 = of_char c0 :: int in
      if s0 < 0x80 then (s0, 1)
      else if s0 < 0xC2 \<or> 0xF4 < s0 then (RuneError, 1)
      else
        let sz = (if s0 < 0xE0 then 2 else if s0 < 0xF0 then 3 else 4) :: int;
            lo = (if s0 = 0xE0 then 0xA0 else if s0 = 0xF0 then 0x90 else 0x80) :: int;
            hi = (if s0 = 0xED then 0x9F else if s0 = 0xF4 then 0x8F else 0xBF) :: int
        in
          if int (length (c0 # s)) < sz then (RuneError, 1)
          else
            let s1 = of_char (s ! 0) :: int in
            if s1 < lo \<or> hi < s1 then (RuneError, 1)
            else if sz \<le> 2 then ((s0 mod 32) * 64 + s1 mod 64, 2)
            else
              let s2 = of_char (s ! 1) :: int in
              if s2 < 0x80 \<or> 0xBF < s2 then (RuneError, 1)
              else if sz \<le> 3 then ((s0 mod 16) * 4096 + (s1 mod 64) * 64 + s2 mod 64, 3)
              else
                let s3 = of_char (s ! 2) :: int in
                if s3 < 0x80 \<or> 0xBF < s3 then (RuneError, 1)
                else ((s0 mod 8) * 262144 + (s1 mod 64) * 4096 + (s2 mod 64) * 64
                      + s3 mod 64, 4))"

section \<open>Items and the lexer\<close>

datatype itemElement =
    itemEOF
  | itemError
  | itemTitle
  | itemSectionAdornment
  | itemParagraph
  | itemBlockquote
  | itemLiteralBlock
  | itemSystemMessage
  | itemSpace
  | itemBlankLine

fun itemElement_String :: "itemElement \<Rightarrow> string" where
  "itemElement_String itemEOF = ''itemEOF''"
| "itemElement_String itemError = ''itemError''"
| "itemElement_String itemTitle = ''itemTitle''"
| "itemElement_String itemSectionAdornment = ''itemSectionAdornment''"
| "itemElement_String itemParagraph = ''itemParagraph''"
| "itemElement_String itemBlockquote = ''itemBlockquote''"
| "itemElement_String itemLiteralBlock = ''itemLiteralBlock''"
| "itemElement_String itemSystemMessage = ''itemSystemMessage''"
| "itemElement_String itemSpace = ''itemSpace''"
| "itemElement_String itemBlankLine = ''itemBlankLine''"

text \<open>The adornment alphabet, as code points, in the order of the source.\<close>

definition sectionAdornments :: "rune list" where
  "sectionAdornments =
     [0x21, 0x22, 0x23, 0x24, 0x27, 0x25, 0x26, 0x28, 0x29, 0x2A,
      0x2B, 0x2C, 0x2D, 0x2E, 0x2F, 0x3A, 0x3B, 0x3C, 0x3D, 0x3E, 0x3F, 0x40, 0x5B, 0x5C,
      0x5D, 0x5E, 0x5F, 0x60, 0x7B, 0x7C, 0x7D, 0x7E]"

definition isSectionAdornment :: "rune \<Rightarrow> bool" where
  "isSectionAdornment r = list_ex (\<lambda>a. a = r) sectionAdornments"

definition isSpace :: "rune \<Rightarrow> bool" where
  "isSpace r = (r = 0x20 \<or> r = 0x09)"

definition isEndOfLine :: "rune \<Rightarrow> bool" where
  "isEndOfLine r = (r = 0x0D \<or> r = 0x0A)"

record item =
  ElementName :: string
  ElementType :: itemElement
  Position :: Pos
  Line :: int
  Value :: string

datatype stateFn = LexStart | LexSection

text \<open>
  The lexer struct. The unbuffered channel \<open>items\<close> is the list of the items sent so far,
  oldest first; \<open>state\<close> is \<open>None\<close> for Go's nil.
\<close>

record lexer =
  name :: string
  input :: string
  state :: "stateFn option"
  pos :: Pos
  start :: Pos
  width :: Pos
  lastPos :: Pos
  items :: "item list"
  line :: int

text \<open>
  What a call does: it returns a value, it panics (a slice expression out of range), or,
  for the loops that need not end, the iteration budget ran out. The last two keep the
  lexer as it was at that moment, with the items sent until then.
\<close>

datatype 'a outcome = Returns 'a | Panics lexer | OutOfFuel lexer

fun bind :: "'a outcome \<Rightarrow> ('a \<Rightarrow> 'b outcome) \<Rightarrow> 'b outcome" where
  "bind (Returns x) f = f x"
| "bind (Panics l) f = Panics l"
| "bind (OutOfFuel l) f = OutOfFuel l"

fun result :: "'a outcome \<Rightarrow> 'a option" where
  "result (Returns x) = Some x"
| "result (Panics l) = None"
| "result (OutOfFuel l) = None"

text \<open>\<open>s[i:j]\<close> for indices already checked to be in range.\<close>

definition slice :: "string \<Rightarrow> int \<Rightarrow> int \<Rightarrow> string" where
  "slice s i j = take (nat (j - i)) (drop (nat i) s)"

definition lex :: "string \<Rightarrow> string \<Rightarrow> lexer" where
  "lex nm inp =
     \<lparr>name = nm, input = inp, state = None, pos = 0, start = 0, width = 0, lastPos = 0,
      items = [], line = 1\<rparr>"

definition emit :: "itemElement \<Rightarrow> lexer \<Rightarrow> lexer outcome" where
  "emit t l =
     (if 0 \<le> start l \<and> start l \<le> pos l \<and> pos l \<le> int (length (input l)) then
        Returns (l\<lparr>items := items l @
                     [\<lparr>ElementName = itemElement_String t, ElementType = t,
                       Position = start l, Line = line l,
                       Value = slice (input l) (start l) (pos l)\<rparr>],
                   start := pos l\<rparr>)
      else Panics l)"

text \<open>
  The argument \<open>l.input[l.start:l.pos]\<close> of the \<open>log.Debugf\<close> calls of the state
  functions. Go evaluates it whatever the log level, so it panics as the slice of \<open>emit\<close>
  does; the message itself is no part of the model.
\<close>

definition log_slice :: "lexer \<Rightarrow> lexer outcome" where
  "log_slice l =
     (if 0 \<le> start l \<and> start l \<le> pos l \<and> pos l \<le> int (length (input l)) then Returns l
      else Panics l)"

text \<open>The same call under \<open>if len(l.input) > 0\<close>, as \<open>lexSection\<close> has it.\<close>

definition log_slice_nonempty :: "lexer \<Rightarrow> lexer outcome" where
  "log_slice_nonempty l = (if length (input l) > 0 then log_slice l else Returns l)"

definition backup :: "lexer \<Rightarrow> lexer" where
  "backup l = l\<lparr>pos := pos l - width l\<rparr>"

definition current :: "lexer \<Rightarrow> rune outcome" where
  "current l =
     (if 0 \<le> pos l \<and> pos l \<le> int (length (input l)) then
        Returns (fst (DecodeRuneInString (drop (nat (pos l)) (input l))))
      else Panics l)"

definition ignore :: "lexer \<Rightarrow> lexer" where
  "ignore l = l\<lparr>pos := pos l + 1, start := pos l + 1\<rparr>"

definition "next" :: "lexer \<Rightarrow> (rune \<times> lexer) outcome" where
  "next l =
     (if pos l \<ge> int (length (input l)) then Returns (EOF, l\<lparr>width := 0\<rparr>)
      else if pos l < 0 then Panics l
      else
        let (r, w) = DecodeRuneInString (drop (nat (pos l)) (input l))
        in Returns (r, l\<lparr>width := w, pos := pos l + w\<rparr>))"

definition peek :: "lexer \<Rightarrow> (rune \<times> lexer) outcome" where
  "peek l = bind (next l) (\<lambda>(r, l1). Returns (r, backup l1))"

definition previous :: "lexer \<Rightarrow> (rune \<times> lexer) outcome" where
  "previous l =
     (let l1 = backup l in
      bind (current l1) (\<lambda>r. bind (next l1) (\<lambda>(r', l2). Returns (r, l2))))"

section \<open>The state functions\<close>

text \<open>
  How one pass through the body of the \<open>for\<close> loop of \<open>lexStart\<close> ends: the loop goes
  round again (\<open>None\<close>), it is left by \<open>break\<close>, or the function returns a state function.
\<close>

datatype loop_exit = Broke | Returned "stateFn option"

text \<open>
  The first case of the switch, \<open>isSectionAdornment(r) && isSectionAdornment(l.peek()) &&
  l.pos == 1\<close>, evaluated left to right: \<open>peek\<close> is called only when \<open>r\<close> is an adornment.
\<close>

definition lexStart_case1 :: "rune \<Rightarrow> lexer \<Rightarrow> (bool \<times> lexer) outcome" where
  "lexStart_case1 r l =
     (if isSectionAdornment r then
        bind (peek l) (\<lambda>(p, l1). Returns (isSectionAdornment p \<and> pos l1 = 1, l1))
      else Returns (False, l))"

text \<open>The second case, \<open>isEndOfLine(r)\<close>: \<open>None\<close> when the switch falls out of its end.\<close>

definition lexStart_case2 :: "lexer \<Rightarrow> (loop_exit option \<times> lexer) outcome" where
  "lexStart_case2 l =
     (let l1 = l\<lparr>line := line l + 1\<rparr> in
      bind (peek l1) (\<lambda>(p, l2).
        if isSectionAdornment p then Returns (Some (Returned (Some LexSection)), l2)
        else
          bind (if pos l2 > start l2 then emit itemParagraph l2 else Returns l2) (\<lambda>l3.
            Returns (None, ignore l3))))"

definition lexStart_switch :: "lexer \<Rightarrow> (loop_exit option \<times> lexer) outcome" where
  "lexStart_switch l =
     bind (current l) (\<lambda>r.
       bind (lexStart_case1 r l) (\<lambda>(c1, l1).
         if c1 then Returns (Some (Returned (Some LexSection)), l1)
         else if isEndOfLine r then lexStart_case2 l1
         else Returns (None, l1)))"

definition lexStart_iter :: "lexer \<Rightarrow> (loop_exit option \<times> lexer) outcome" where
  "lexStart_iter l =
     (if length (input l) = 0 then
        bind (emit itemEOF l) (\<lambda>l1. Returns (Some (Returned None), l1))
      else
        bind (log_slice l) (\<lambda>_.
          bind (lexStart_switch l) (\<lambda>(ex, l1).
            case ex of
              Some e \<Rightarrow> Returns (Some e, l1)
            | None \<Rightarrow>
                bind (next l1) (\<lambda>(r, l2).
                  if r = EOF then Returns (Some Broke, l2) else Returns (None, l2)))))"

subsection \<open>Facts about the decoder and \<open>next\<close>\<close>

lemma decode_width_pos: "s \<noteq> [] \<Longrightarrow> 1 \<le> snd (DecodeRuneInString s)"
  by (cases s) (auto simp: Let_def)

lemma decode_width_le: "snd (DecodeRuneInString s) \<le> int (length s)"
  by (cases s) (auto simp: Let_def Suc_le_eq split: if_splits)

lemma of_char_int_nonneg: "0 \<le> (of_char c :: int)"
  by (metis of_nat_0_le_iff of_nat_of_char)

lemma of_char_int_less: "(of_char c :: int) < 256"
  by (metis of_char_mod_256 pos_mod_bound zero_less_numeral)

lemma decode_rune_nonneg: "0 \<le> fst (DecodeRuneInString s)"
  by (cases s) (auto simp: Let_def RuneError_def of_char_int_nonneg)

lemma log_slice_cases: "log_slice l = Returns l \<or> log_slice l = Panics l"
  by (simp add: log_slice_def)

lemma log_slice_nonempty_cases:
  "log_slice_nonempty l = Returns l \<or> log_slice_nonempty l = Panics l"
  by (simp add: log_slice_nonempty_def log_slice_def)

lemma log_slice_ok:
  "0 \<le> start l \<Longrightarrow> start l \<le> pos l \<Longrightarrow> pos l \<le> int (length (input l)) \<Longrightarrow>
     log_slice l = Returns l"
  by (simp add: log_slice_def)

text \<open>
  The two ways \<open>next\<close> returns: at the end of the input, with \<open>EOF\<close> and no move, or
  with the rune at the cursor, moving by its width, which is at least one byte.
\<close>

lemma next_cases [consumes 1, case_names eof rune]:
  assumes "next l = Returns (r, l1)"
  obtains
    (eof) "r = EOF" "int (length (input l)) \<le> pos l" "l1 = l\<lparr>width := 0\<rparr>"
  | (rune) w where "r \<noteq> EOF" "0 \<le> pos l" "pos l < int (length (input l))"
      "DecodeRuneInString (drop (nat (pos l)) (input l)) = (r, w)" "1 \<le> w"
      "l1 = l\<lparr>width := w, pos := pos l + w\<rparr>"
  using assms decode_rune_nonneg[of "drop (nat (pos l)) (input l)"]
    decode_width_pos[of "drop (nat (pos l)) (input l)"]
  by (auto simp: next_def EOF_def split: if_splits prod.splits)

text \<open>\<open>peek\<close> is \<open>next\<close> undone by \<open>backup\<close>: only the width is left changed.\<close>

lemma peek_cases [consumes 1, case_names eof rune]:
  assumes "peek l = Returns (r, l1)"
  obtains
    (eof) "r = EOF" "int (length (input l)) \<le> pos l" "l1 = l\<lparr>width := 0\<rparr>"
  | (rune) w where "r \<noteq> EOF" "0 \<le> pos l" "pos l < int (length (input l))"
      "DecodeRuneInString (drop (nat (pos l)) (input l)) = (r, w)" "1 \<le> w"
      "l1 = l\<lparr>width := w\<rparr>"
proof -
  from assms obtain l2 where n: "next l = Returns (r, l2)" and b: "l1 = backup l2"
    by (cases "next l") (auto simp: peek_def)
  from n show thesis
  proof (cases rule: next_cases)
    case eof
    with b have "l1 = l\<lparr>width := 0\<rparr>" by (simp add: backup_def)
    with eof that(1) show thesis by blast
  next
    case (rune w)
    with b have "l1 = l\<lparr>width := w\<rparr>" by (simp add: backup_def)
    with rune that(2) show thesis by blast
  qed
qed

lemma mod_lead2: "194 \<le> (x::int) \<Longrightarrow> x < 224 \<Longrightarrow> 2 \<le> x mod 32"
  by presburger

lemma mod_lead3: "225 \<le> (x::int) \<Longrightarrow> x < 240 \<Longrightarrow> 1 \<le> x mod 16"
  by presburger

lemma mod_lead4: "241 \<le> (x::int) \<Longrightarrow> x \<le> 244 \<Longrightarrow> 1 \<le> x mod 8"
  by presburger

lemma mod_cont_A0: "160 \<le> (x::int) \<Longrightarrow> x \<le> 191 \<Longrightarrow> 32 \<le> x mod 64"
  by presburger

lemma mod_cont_90: "144 \<le> (x::int) \<Longrightarrow> x \<le> 191 \<Longrightarrow> 16 \<le> x mod 64"
  by presburger

text \<open>Only a single byte below 0x80 decodes to a rune below 0x80.\<close>

lemma decode_multibyte_ge:
  assumes "DecodeRuneInString s = (r, w)" "w \<noteq> 1" "s \<noteq> []"
  shows "0x80 \<le> r"
proof (cases s)
  case Nil
  with assms show ?thesis by simp
next
  case (Cons c0 t)
  have b: "0 \<le> (of_char (t ! 0) :: int) mod 64" "0 \<le> (of_char (t ! 1) :: int) mod 64"
    "0 \<le> (of_char (t ! 2) :: int) mod 64" "0 \<le> (of_char c0 :: int) mod 16"
    "0 \<le> (of_char c0 :: int) mod 8"
    by simp_all
  from assms(1,2) Cons show ?thesis
    using b mod_lead2[of "of_char c0"] mod_lead3[of "of_char c0"] mod_lead4[of "of_char c0"]
      mod_cont_A0[of "of_char (t ! 0)"] mod_cont_90[of "of_char (t ! 0)"]
    by (auto simp: Let_def RuneError_def split: if_splits)
qed

lemma adornment_ascii: "isSectionAdornment r \<Longrightarrow> 0x21 \<le> r \<and> r < 0x80"
  by (auto simp: isSectionAdornment_def sectionAdornments_def)

lemma endOfLine_ascii: "isEndOfLine r \<Longrightarrow> 0 < r \<and> r < 0x21"
  by (auto simp: isEndOfLine_def)

text \<open>An end-of-line rune is decoded from an end-of-line byte, and only from one.\<close>

lemma decode_eol_byte:
  assumes "isEndOfLine (of_char c)"
  shows "DecodeRuneInString (c # t) = (of_char c, 1)"
  using assms by (auto simp: isEndOfLine_def)

lemma decode_eol_rune:
  assumes "DecodeRuneInString s = (r, w)" "isEndOfLine r"
  shows "s \<noteq> [] \<and> r = of_char (hd s) \<and> w = 1"
proof (cases s)
  case Nil
  with assms show ?thesis by (simp add: RuneError_def isEndOfLine_def)
next
  case (Cons c0 t)
  from endOfLine_ascii[OF assms(2)] have asc: "0 < r" "r < 0x80" by auto
  from decode_multibyte_ge[OF assms(1)] asc Cons have w: "w = 1" by fastforce
  from assms(1) Cons w asc have "r = of_char c0"
    by (auto simp: Let_def RuneError_def split: if_splits)
  with Cons w show ?thesis by simp
qed

text \<open>Past the first byte of a rune there are continuation bytes only, none an end of line.\<close>

lemma eol_byte_after_rune:
  assumes "DecodeRuneInString s = (r, w)" "\<not> isEndOfLine r" "c \<in> set s"
    "isEndOfLine (of_char c)"
  shows "c \<in> set (drop (nat w) s)"
proof (cases s)
  case Nil
  with assms show ?thesis by simp
next
  case (Cons c0 t)
  have c0: "c \<noteq> c0"
  proof
    assume "c = c0"
    with decode_eol_byte[OF assms(4), of t] Cons assms(1,2,4) show False by simp
  qed
  with assms(3) Cons have ct: "c \<in> set t" by simp
  have hi: "\<not> 0x80 \<le> (of_char c :: int)" using endOfLine_ascii[OF assms(4)] by simp
  consider "w = 1" | "w = 2" | "w = 3" | "w = 4"
    using assms(1) Cons by (auto simp: Let_def split: if_splits)
  then show ?thesis
  proof cases
    case 1
    with ct Cons show ?thesis by simp
  next
    case 2
    with assms(1) Cons obtain c1 t1 where t: "t = c1 # t1" and "0x80 \<le> (of_char c1 :: int)"
      by (cases t) (auto simp: Let_def split: if_splits)
    with ct hi 2 Cons show ?thesis by auto
  next
    case 3
    with assms(1) Cons obtain c1 c2 t2 where t: "t = c1 # c2 # t2"
      and "0x80 \<le> (of_char c1 :: int)" "0x80 \<le> (of_char c2 :: int)"
      by (cases t; cases "tl t") (auto simp: Let_def split: if_splits)
    with ct hi 3 Cons show ?thesis by auto
  next
    case 4
    with assms(1) Cons obtain c1 c2 c3 t3 where t: "t = c1 # c2 # c3 # t3"
      and "0x80 \<le> (of_char c1 :: int)" "0x80 \<le> (of_char c2 :: int)"
        "0x80 \<le> (of_char c3 :: int)"
      by (cases t; cases "tl t"; cases "tl (tl t)") (auto simp: Let_def split: if_splits)
    with ct hi 4 Cons show ?thesis by auto
  qed
qed

lemma peek_inside:
  assumes "0 \<le> pos l" "pos l < int (length (input l))"
    "DecodeRuneInString (drop (nat (pos l)) (input l)) = (r, w)"
  shows "peek l = Returns (r, l\<lparr>width := w\<rparr>)"
  using assms by (simp add: peek_def next_def backup_def)

lemma decode_ascii_width:
  assumes "DecodeRuneInString (drop (nat p) s) = (r, w)" "0 < r" "r < 0x80" "0 \<le> p" "p \<le> int (length s)"
  shows "w = 1 \<and> p < int (length s)"
proof -
  have ne: "drop (nat p) s \<noteq> []"
  proof
    assume "drop (nat p) s = []"
    with assms(1) have "r = RuneError" by simp
    with assms(3) show False by (simp add: RuneError_def)
  qed
  with decode_multibyte_ge[OF assms(1)] assms(3) have "w = 1" by fastforce
  moreover from ne assms(4) have "p < int (length s)" by simp
  ultimately show ?thesis by simp
qed

lemma lexStart_switch_cases [consumes 1, case_names to_section newline_emit newline_skip other]:
  assumes "lexStart_switch l = Returns (ex, l1)"
  obtains
    (to_section) "ex = Some (Returned (Some LexSection))" "pos l = 1"
      "1 < int (length (input l))"
      "isSectionAdornment (fst (DecodeRuneInString (drop 1 (input l))))"
      "l1 = l\<lparr>width := 1\<rparr>"
  | (newline_emit) "ex = None" "0 \<le> start l" "start l < pos l"
      "pos l < int (length (input l))"
      "isEndOfLine (fst (DecodeRuneInString (drop (nat (pos l)) (input l))))"
      "l1 = l\<lparr>line := line l + 1, width := 1,
                items := items l @
                  [\<lparr>ElementName = ''itemParagraph'', ElementType = itemParagraph,
                    Position = start l, Line = line l + 1,
                    Value = slice (input l) (start l) (pos l)\<rparr>],
                pos := pos l + 1, start := pos l + 1\<rparr>"
  | (newline_skip) "ex = None" "0 \<le> pos l" "pos l \<le> start l"
      "pos l < int (length (input l))"
      "isEndOfLine (fst (DecodeRuneInString (drop (nat (pos l)) (input l))))"
      "l1 = l\<lparr>line := line l + 1, width := 1, pos := pos l + 1, start := pos l + 1\<rparr>"
  | (other) w where "ex = None" "0 \<le> pos l" "pos l \<le> int (length (input l))"
      "l1 = l\<lparr>width := w\<rparr>"
proof -
  from assms obtain r where cur: "current l = Returns r"
    by (cases "current l") (auto simp: lexStart_switch_def)
  then have rng: "0 \<le> pos l" "pos l \<le> int (length (input l))"
    and r: "r = fst (DecodeRuneInString (drop (nat (pos l)) (input l)))"
    by (auto simp: current_def split: if_splits)
  obtain w where dec: "DecodeRuneInString (drop (nat (pos l)) (input l)) = (r, w)"
    using r by (cases "DecodeRuneInString (drop (nat (pos l)) (input l))") simp
  show thesis
  proof (cases "isSectionAdornment r")
    case True
    with adornment_ascii[of r] have asc: "0 < r" "r < 0x80" and neol: "\<not> isEndOfLine r"
      by (auto simp: isEndOfLine_def)
    from decode_ascii_width[OF dec asc rng] have w: "w = 1" and lt: "pos l < int (length (input l))"
      by simp_all
    from peek_inside[OF rng(1) lt dec] w have pk: "peek l = Returns (r, l\<lparr>width := 1\<rparr>)"
      by simp
    show ?thesis
    proof (cases "pos l = 1")
      case True
      with assms cur pk \<open>isSectionAdornment r\<close> r lt
      show ?thesis
        by (intro to_section) (auto simp: lexStart_switch_def lexStart_case1_def)
    next
      case False
      with assms cur pk \<open>isSectionAdornment r\<close> neol rng
      show ?thesis
        by (intro other[of 1]) (auto simp: lexStart_switch_def lexStart_case1_def)
    qed
  next
    case False
    note nad = this
    show ?thesis
    proof (cases "isEndOfLine r")
      case True
      with endOfLine_ascii[of r] have asc: "0 < r" "r < 0x80" by auto
      from decode_ascii_width[OF dec asc rng] have w: "w = 1" and lt: "pos l < int (length (input l))"
        by simp_all
      have pk: "peek (l\<lparr>line := line l + 1\<rparr>) = Returns (r, l\<lparr>line := line l + 1, width := 1\<rparr>)"
        using peek_inside[of "l\<lparr>line := line l + 1\<rparr>" r w] rng lt dec w by simp
      show ?thesis
      proof (cases "start l < pos l")
        case True
        with assms cur pk nad \<open>isEndOfLine r\<close> r lt rng
        show ?thesis
          by (intro newline_emit)
            (auto simp: lexStart_switch_def lexStart_case1_def lexStart_case2_def emit_def ignore_def
              split: if_splits)
      next
        case False
        with assms cur pk nad \<open>isEndOfLine r\<close> r lt rng
        show ?thesis
          by (intro newline_skip)
            (auto simp: lexStart_switch_def lexStart_case1_def lexStart_case2_def ignore_def)
      qed
    next
      case False
      with assms cur nad rng
      show ?thesis
        by (intro other[of "width l"]) (auto simp: lexStart_switch_def lexStart_case1_def)
    qed
  qed
qed

text \<open>One pass through the loop body of \<open>lexStart\<close>, by the way it ends.\<close>

lemma lexStart_iter_cases [consumes 1, case_names empty to_section broke continue]:
  assumes "lexStart_iter l = Returns (ex, l1)"
  obtains
    (empty) "input l = []" "ex = Some (Returned None)" "emit itemEOF l = Returns l1"
  | (to_section) "input l \<noteq> []" "ex = Some (Returned (Some LexSection))"
      "lexStart_switch l = Returns (Some (Returned (Some LexSection)), l1)"
  | (broke) l' where "input l \<noteq> []" "ex = Some Broke"
      "lexStart_switch l = Returns (None, l')"
      "int (length (input l')) \<le> pos l'" "l1 = l'\<lparr>width := 0\<rparr>"
  | (continue) l' w where "input l \<noteq> []" "ex = None"
      "lexStart_switch l = Returns (None, l')"
      "0 \<le> pos l'" "pos l' < int (length (input l'))" "1 \<le> w"
      "l1 = l'\<lparr>width := w, pos := pos l' + w\<rparr>"
proof (cases "input l = []")
  case True
  with assms empty show ?thesis
    by (cases "emit itemEOF l") (auto simp: lexStart_iter_def)
next
  case False
  with assms have lg: "log_slice l = Returns l"
    using log_slice_cases[of l] by (auto simp: lexStart_iter_def)
  with assms False obtain e l' where sw: "lexStart_switch l = Returns (e, l')"
    by (cases "lexStart_switch l") (auto simp: lexStart_iter_def)
  show ?thesis
  proof (cases e)
    case (Some x)
    with sw have "x = Returned (Some LexSection)"
      by (cases rule: lexStart_switch_cases) auto
    with Some sw assms False lg to_section show ?thesis
      by (auto simp: lexStart_iter_def)
  next
    case None
    with sw assms False lg obtain r l2 where n: "next l' = Returns (r, l2)"
      and ex: "ex = (if r = EOF then Some Broke else None)" and l1: "l1 = l2"
      by (cases "next l'") (auto simp: lexStart_iter_def split: if_splits)
    from n show ?thesis
    proof (cases rule: next_cases)
      case eof
      with sw None ex l1 False broke show ?thesis by simp
    next
      case (rune w)
      with sw None ex l1 False continue show ?thesis by simp
    qed
  qed
qed

lemma lexStart_iter_advances:
  assumes "lexStart_iter l = Returns (None, l1)"
  shows "input l1 = input l \<and> pos l < pos l1 \<and> pos l < int (length (input l))"
  using assms
proof (cases rule: lexStart_iter_cases)
  case (continue l' w)
  from continue(3) have "input l' = input l \<and> pos l \<le> pos l'"
    by (cases rule: lexStart_switch_cases) auto
  with continue show ?thesis by auto
qed simp_all

text \<open>
  The \<open>for\<close> loop of \<open>lexStart\<close>. It always ends: every pass that goes round again has
  moved the cursor forward inside the input.
\<close>

function lexStart_loop :: "lexer \<Rightarrow> (loop_exit \<times> lexer) outcome" where
  "lexStart_loop l =
     (case lexStart_iter l of
        Returns (None, l1) \<Rightarrow> lexStart_loop l1
      | Returns (Some e, l1) \<Rightarrow> Returns (e, l1)
      | Panics x \<Rightarrow> Panics x
      | OutOfFuel x \<Rightarrow> OutOfFuel x)"
  by pat_completeness auto
termination
proof (relation "measure (\<lambda>l. nat (int (length (input l)) - pos l))")
  show "wf (measure (\<lambda>l. nat (int (length (input l)) - pos l)))"
    by simp
next
  fix l :: lexer and x1 :: "loop_exit option \<times> lexer" and ex l1
  assume "lexStart_iter l = Returns x1" "(ex, l1) = x1" "ex = None"
  then have "lexStart_iter l = Returns (None, l1)" by simp
  from lexStart_iter_advances[OF this]
  show "(l1, l) \<in> measure (\<lambda>l. nat (int (length (input l)) - pos l))"
    by simp
qed

declare lexStart_loop.simps [simp del]

definition lexStart :: "lexer \<Rightarrow> (stateFn option \<times> lexer) outcome" where
  "lexStart l =
     bind (lexStart_loop l) (\<lambda>(e, l1).
       case e of
         Returned s \<Rightarrow> Returns (s, l1)
       | Broke \<Rightarrow>
           bind (if pos l1 > start l1 then emit itemParagraph l1 else Returns l1) (\<lambda>l2.
             bind (emit itemEOF l2) (\<lambda>l3. Returns (None, l3))))"

text \<open>
  The labelled loop of \<open>lexSection\<close>. It goes round on every rune that is not an end of
  line, \<open>EOF\<close> included, so it need not end: it runs on a budget of iterations.
\<close>

primrec lexSection_loop :: "nat \<Rightarrow> lexer \<Rightarrow> lexer outcome" where
  "lexSection_loop 0 l = OutOfFuel l"
| "lexSection_loop (Suc n) l =
     bind (next l) (\<lambda>(r, l1).
       if isSectionAdornment r then
         bind (log_slice_nonempty l1) (\<lambda>_.
           lexSection_loop n l1)
       else if isEndOfLine r then
         bind (emit itemSectionAdornment (backup l1)) (\<lambda>l2.
           Returns (ignore (l2\<lparr>line := line l2 + 1\<rparr>)))
       else lexSection_loop n l1)"

definition lexSection :: "nat \<Rightarrow> lexer \<Rightarrow> (stateFn option \<times> lexer) outcome" where
  "lexSection fuel l =
     bind (log_slice_nonempty l) (\<lambda>_.
       bind (peek l) (\<lambda>(p, l1).
         bind (if isEndOfLine p then bind (emit itemTitle l1) (\<lambda>l2. Returns (ignore l2))
               else Returns l1) (\<lambda>l3.
           bind (lexSection_loop fuel l3) (\<lambda>l4. Returns (Some LexStart, l4)))))"

text \<open>
  \<open>run\<close>: the state functions are called in turn until one returns nil. \<open>fuel\<close> bounds the
  number of calls and the iterations of the loop of \<open>lexSection\<close>.
\<close>

primrec run_loop :: "nat \<Rightarrow> lexer \<Rightarrow> lexer outcome" where
  "run_loop 0 l = (case state l of None \<Rightarrow> Returns l | Some f \<Rightarrow> OutOfFuel l)"
| "run_loop (Suc n) l =
     (case state l of
        None \<Rightarrow> Returns l
      | Some LexStart \<Rightarrow> bind (lexStart l) (\<lambda>(s, l1). run_loop n (l1\<lparr>state := s\<rparr>))
      | Some LexSection \<Rightarrow> bind (lexSection n l) (\<lambda>(s, l1). run_loop n (l1\<lparr>state := s\<rparr>)))"

definition run :: "nat \<Rightarrow> lexer \<Rightarrow> lexer outcome" where
  "run fuel l = run_loop fuel (l\<lparr>state := Some LexStart\<rparr>)"

text \<open>The items sent on the channel by the time the run returned, panicked or was cut.\<close>

fun emitted :: "lexer outcome \<Rightarrow> item list" where
  "emitted (Returns l) = items l"
| "emitted (Panics l) = items l"
| "emitted (OutOfFuel l) = items l"

definition kinds :: "item list \<Rightarrow> itemElement list" where
  "kinds ts = map ElementType ts"

definition texts :: "item list \<Rightarrow> string list" where
  "texts ts = map Value ts"

section \<open>Cursor operations in sequence\<close>

text \<open>
  The three cursor operations a state function combines, and a sequence of them run from
  a lexer. \<open>backup_follows_next\<close> holds of the sequences in which every \<open>backup\<close>
  comes directly after a \<open>next\<close>, the only use the state functions make of it;
  \<open>backups_ok\<close> carries whether the operation before was a \<open>next\<close>.
\<close>

datatype cursor_op = Next | Backup | Peek

fun apply_op :: "cursor_op \<Rightarrow> lexer \<Rightarrow> lexer outcome" where
  "apply_op Next l = bind (next l) (\<lambda>(r, l1). Returns l1)"
| "apply_op Backup l = Returns (backup l)"
| "apply_op Peek l = bind (peek l) (\<lambda>(r, l1). Returns l1)"

fun apply_ops :: "cursor_op list \<Rightarrow> lexer \<Rightarrow> lexer outcome" where
  "apply_ops [] l = Returns l"
| "apply_ops (c # cs) l = bind (apply_op c l) (apply_ops cs)"

fun backups_ok :: "bool \<Rightarrow> cursor_op list \<Rightarrow> bool" where
  "backups_ok prev [] = True"
| "backups_ok prev (Next # cs) = backups_ok True cs"
| "backups_ok prev (Peek # cs) = backups_ok False cs"
| "backups_ok prev (Backup # cs) = (prev \<and> backups_ok False cs)"

definition backup_follows_next :: "cursor_op list \<Rightarrow> bool" where
  "backup_follows_next ops = backups_ok False ops"

text \<open>
  The byte offsets at which a rune of the string starts when it is decoded from its
  beginning, and the length of the string; an invalid byte is a rune of width one.
\<close>

function rune_starts :: "string \<Rightarrow> nat list" where
  "rune_starts s =
     (if s = [] then [0]
      else let w = nat (snd (DecodeRuneInString s)) in 0 # map (\<lambda>i. w + i) (rune_starts (drop w s)))"
  by pat_completeness auto
termination
proof (relation "measure length")
  show "wf (measure length)" by simp
next
  fix s :: string and w
  assume "s \<noteq> []" "w = nat (snd (DecodeRuneInString s))"
  with decode_width_pos[of s] show "(drop w s, s) \<in> measure length" by simp
qed

declare rune_starts.simps [simp del]

definition on_rune_boundary :: "string \<Rightarrow> Pos \<Rightarrow> bool" where
  "on_rune_boundary s p = (0 \<le> p \<and> nat p \<in> set (rune_starts s))"

section \<open>The cursor\<close>

lemma rune_starts_zero: "0 \<in> set (rune_starts s)"
  by (subst rune_starts.simps) (simp add: Let_def)

lemma rune_starts_step:
  "n \<in> set (rune_starts s) \<Longrightarrow> n < length s \<Longrightarrow>
     n + nat (snd (DecodeRuneInString (drop n s))) \<in> set (rune_starts s)"
proof (induction s arbitrary: n rule: rune_starts.induct)
  case (1 s)
  from "1.prems"(2) have ne: "s \<noteq> []" by auto
  define w where "w = nat (snd (DecodeRuneInString s))"
  have wle: "w \<le> length s" using decode_width_le[of s] by (simp add: w_def)
  have unf: "rune_starts s = 0 # map (\<lambda>i. w + i) (rune_starts (drop w s))"
    using ne by (subst rune_starts.simps) (simp add: Let_def w_def)
  show ?case
  proof (cases "n = 0")
    case True
    then show ?thesis using unf rune_starts_zero[of "drop w s"] by (auto simp: w_def)
  next
    case False
    with "1.prems"(1) unf obtain i where i: "n = w + i" "i \<in> set (rune_starts (drop w s))"
      by auto
    with "1.prems"(2) wle have "i < length (drop w s)" by simp
    from "1.IH"[OF ne w_def i(2) this]
    have "i + nat (snd (DecodeRuneInString (drop (i + w) s))) \<in> set (rune_starts (drop w s))"
      by simp
    then show ?thesis using unf i(1) by (auto simp: add.commute add.assoc)
  qed
qed


lemma boundary_next:
  assumes "on_rune_boundary (input l) (pos l)" "next l = Returns (r, l1)"
  shows "on_rune_boundary (input l1) (pos l1)"
  using assms(2)
proof (cases rule: next_cases)
  case eof
  with assms(1) show ?thesis by (simp add: on_rune_boundary_def)
next
  case (rune w)
  from assms(1) rune(2,3) have "nat (pos l) \<in> set (rune_starts (input l))"
    "nat (pos l) < length (input l)"
    by (auto simp: on_rune_boundary_def)
  from rune_starts_step[OF this] rune(4,5)
  have "nat (pos l) + nat w \<in> set (rune_starts (input l))" by simp
  moreover from rune(2,5) have "nat (pos l + w) = nat (pos l) + nat w" by (simp add: nat_add_distrib)
  ultimately show ?thesis using rune by (simp add: on_rune_boundary_def)
qed

lemma boundary_peek:
  assumes "on_rune_boundary (input l) (pos l)" "peek l = Returns (r, l1)"
  shows "on_rune_boundary (input l1) (pos l1)"
  using assms(2,1) by (cases rule: peek_cases) simp_all

lemma next_total: "0 \<le> pos l \<Longrightarrow> \<exists>r l1. next l = Returns (r, l1)"
  by (auto simp: next_def split: prod.splits)

lemma peek_total: "0 \<le> pos l \<Longrightarrow> \<exists>r l1. peek l = Returns (r, l1)"
  by (auto simp: peek_def next_def split: prod.splits)

text \<open>
  The invariant of a disciplined sequence: the position is on a rune boundary, and so is
  the position one width back when the operation before was a \<open>next\<close>.
\<close>

lemma disciplined_ops_keep_boundary:
  "backups_ok prev ops \<Longrightarrow> on_rune_boundary (input l) (pos l) \<Longrightarrow>
   (prev \<Longrightarrow> on_rune_boundary (input l) (pos l - width l)) \<Longrightarrow>
     \<exists>l'. apply_ops ops l = Returns l' \<and> input l' = input l \<and>
          on_rune_boundary (input l') (pos l')"
proof (induction ops arbitrary: prev l)
  case Nil
  then show ?case by simp
next
  case (Cons c cs)
  from Cons.prems(2) have nonneg: "0 \<le> pos l" by (simp add: on_rune_boundary_def)
  show ?case
  proof (cases c)
    case Next
    from nonneg obtain r l1 where n: "next l = Returns (r, l1)" using next_total by blast
    have i: "input l1 = input l" and bk: "pos l1 - width l1 = pos l"
      using n by (cases rule: next_cases; simp)+
    from Cons.prems(1) Next have ok: "backups_ok True cs" by simp
    from Cons.IH[OF ok boundary_next[OF Cons.prems(2) n]] Cons.prems(2) i bk
    obtain l' where "apply_ops cs l1 = Returns l'" "input l' = input l1"
      "on_rune_boundary (input l') (pos l')" by auto
    with Next n i show ?thesis by simp
  next
    case Backup
    with Cons.prems(1) have prev: "prev" and ok: "backups_ok False cs" by simp_all
    from Cons.prems(3)[OF prev]
    have b: "on_rune_boundary (input (backup l)) (pos (backup l))" by (simp add: backup_def)
    from Cons.IH[OF ok b]
    obtain l' where "apply_ops cs (backup l) = Returns l'" "input l' = input (backup l)"
      "on_rune_boundary (input l') (pos l')" by auto
    with Backup show ?thesis by (simp add: backup_def)
  next
    case Peek
    from nonneg obtain r l1 where n: "peek l = Returns (r, l1)" using peek_total by blast
    have i: "input l1 = input l" using n by (cases rule: peek_cases) auto
    from Cons.prems(1) Peek have ok: "backups_ok False cs" by simp
    from Cons.IH[OF ok boundary_peek[OF Cons.prems(2) n]]
    obtain l' where "apply_ops cs l1 = Returns l'" "input l' = input l1"
      "on_rune_boundary (input l') (pos l')" by auto
    with Peek n i show ?thesis by simp
  qed
qed

text \<open>
  Claim C4, as the code has it: \<open>peek\<close> returns the rune that \<open>next\<close> returns, before
  the call and after it, for every input and every cursor position from which \<open>next\<close>
  does not panic, the end of the input included. It leaves the position, the start, the
  line, the input and the items as they were, and it sets the width to the width of the
  rune it returned.
\<close>

theorem peek_only_sets_width:
  assumes "0 \<le> pos l"
  shows "\<exists>r l1. next l = Returns (r, l1) \<and> peek l = Returns (r, l\<lparr>width := width l1\<rparr>) \<and>
           next (l\<lparr>width := width l1\<rparr>) = Returns (r, l1)"
  using assms by (auto simp: peek_def next_def backup_def split: prod.splits)

theorem peek_only_sets_width_witness:
  "0 \<le> pos (lex ''doc'' ''ab'') \<and>
   next (lex ''doc'' ''ab'') = Returns (0x61, (lex ''doc'' ''ab'')\<lparr>width := 1, pos := 1\<rparr>) \<and>
   peek (lex ''doc'' ''ab'') = Returns (0x61, (lex ''doc'' ''ab'')\<lparr>width := 1\<rparr>)"
  using peek_only_sets_width[of "lex ''doc'' ''ab''"]
  by (simp add: lex_def next_def peek_def backup_def)

text \<open>
  Claim C4 as stated fails: on a fresh lexer for the input \<open>ab\<close> the width is 0, and
  \<open>peek\<close> returns the rune \<open>a\<close> with the width set to 1.
\<close>

theorem peek_changes_width:
  "peek (lex ''doc'' ''ab'') = Returns (0x61, (lex ''doc'' ''ab'')\<lparr>width := 1\<rparr>) \<and>
   width (lex ''doc'' ''ab'') = 0 \<and>
   peek (lex ''doc'' ''ab'') \<noteq> Returns (0x61, lex ''doc'' ''ab'')"
  by (simp add: lex_def next_def peek_def backup_def)

text \<open>
  Claim C5, as the code has it: from a fresh lexer on any input, every sequence of \<open>next\<close>,
  \<open>peek\<close> and \<open>backup\<close> in which each \<open>backup\<close> comes directly after a \<open>next\<close> runs
  without a panic and leaves the position at the start of a rune or at the length of the
  input.
\<close>

theorem disciplined_cursor_stays_on_rune_boundary:
  assumes "backup_follows_next ops"
  shows "\<exists>l'. apply_ops ops (lex nm inp) = Returns l' \<and> on_rune_boundary inp (pos l')"
proof -
  have "on_rune_boundary (input (lex nm inp)) (pos (lex nm inp))"
    using rune_starts_zero[of inp] by (simp add: lex_def on_rune_boundary_def)
  from disciplined_ops_keep_boundary[OF assms[unfolded backup_follows_next_def] this]
  show ?thesis by (auto simp: lex_def)
qed

theorem disciplined_cursor_stays_on_rune_boundary_witness:
  "backup_follows_next [Next, Backup, Peek, Next] \<and>
   map_option pos (result (apply_ops [Next, Backup, Peek, Next]
     (lex ''doc'' [CHR 0xC3, CHR 0xA0, CHR ''a'']))) = Some 2 \<and>
   on_rune_boundary [CHR 0xC3, CHR 0xA0, CHR ''a''] 2"
proof -
  have h: "backup_follows_next [Next, Backup, Peek, Next]"
    by (simp add: backup_follows_next_def)
  have e: "map_option pos (result (apply_ops [Next, Backup, Peek, Next]
     (lex ''doc'' [CHR 0xC3, CHR 0xA0, CHR ''a'']))) = Some 2"
    by code_simp
  from disciplined_cursor_stays_on_rune_boundary[OF h, of "''doc''" "[CHR 0xC3, CHR 0xA0, CHR ''a'']"]
    h e show ?thesis by auto
qed

text \<open>
  Claim C5 as stated fails: a second \<open>backup\<close> steps back by the same width again. On
  the two-byte rune U+00E0 followed by \<open>a\<close>, two \<open>next\<close> and two \<open>backup\<close> leave the
  position at byte 1, inside the first rune (the runes start at 0 and 2, the length is 3).
\<close>

theorem double_backup_lands_mid_rune:
  "map_option pos (result (apply_ops [Next, Next, Backup, Backup]
     (lex ''doc'' [CHR 0xC3, CHR 0xA0, CHR ''a'']))) = Some 1 \<and>
   rune_starts [CHR 0xC3, CHR 0xA0, CHR ''a''] = [0, 2, 3] \<and>
   \<not> on_rune_boundary [CHR 0xC3, CHR 0xA0, CHR ''a''] 1"
  by code_simp

text \<open>
  Claim C6, as the code has it: \<open>backup\<close> takes no count and undoes the last \<open>next\<close>
  only. After a \<open>next\<close> that returned, at any cursor position and on any input, one
  \<open>backup\<close> followed by one \<open>next\<close> returns the same rune and the same lexer, position
  and width included.
\<close>

theorem backup_then_next_round_trip:
  assumes "next l = Returns (r, l1)"
  shows "next (backup l1) = Returns (r, l1)"
  using assms by (cases rule: next_cases) (auto simp: next_def backup_def)

theorem backup_then_next_round_trip_witness:
  "next (lex ''doc'' [CHR 0xC3, CHR 0xA0, CHR ''a'']) =
     Returns (0xE0, (lex ''doc'' [CHR 0xC3, CHR 0xA0, CHR ''a''])\<lparr>width := 2, pos := 2\<rparr>) \<and>
   next (backup ((lex ''doc'' [CHR 0xC3, CHR 0xA0, CHR ''a''])\<lparr>width := 2, pos := 2\<rparr>)) =
     Returns (0xE0, (lex ''doc'' [CHR 0xC3, CHR 0xA0, CHR ''a''])\<lparr>width := 2, pos := 2\<rparr>)"
proof -
  have n: "next (lex ''doc'' [CHR 0xC3, CHR 0xA0, CHR ''a'']) =
     Returns (0xE0, (lex ''doc'' [CHR 0xC3, CHR 0xA0, CHR ''a''])\<lparr>width := 2, pos := 2\<rparr>)"
    by (simp add: lex_def next_def)
  from backup_then_next_round_trip[OF n] n show ?thesis by simp
qed

text \<open>
  Claim C6 as stated fails for a count of two, taken as two calls of \<open>backup\<close>: on the
  input \<open>ab\<close> followed by the two-byte rune U+00E0, three \<open>next\<close> leave position 4 and
  width 2; two \<open>backup\<close> and two \<open>next\<close> then leave position 2 and width 1.
\<close>

theorem two_backups_no_round_trip:
  "map_option pos (result (apply_ops [Next, Next, Next]
     (lex ''doc'' [CHR ''a'', CHR ''b'', CHR 0xC3, CHR 0xA0]))) = Some 4 \<and>
   map_option width (result (apply_ops [Next, Next, Next]
     (lex ''doc'' [CHR ''a'', CHR ''b'', CHR 0xC3, CHR 0xA0]))) = Some 2 \<and>
   map_option pos (result (apply_ops [Next, Next, Next, Backup, Backup, Next, Next]
     (lex ''doc'' [CHR ''a'', CHR ''b'', CHR 0xC3, CHR 0xA0]))) = Some 2 \<and>
   map_option width (result (apply_ops [Next, Next, Next, Backup, Backup, Next, Next]
     (lex ''doc'' [CHR ''a'', CHR ''b'', CHR 0xC3, CHR 0xA0]))) = Some 1"
  by code_simp

section \<open>The budget\<close>

text \<open>
  A run that returns on some budget returns the same lexer on every larger one: the
  budget only decides where a run that has not returned yet is cut.
\<close>

lemma lexSection_loop_mono:
  "lexSection_loop n l = Returns l' \<Longrightarrow> lexSection_loop (n + k) l = Returns l'"
proof (induction n arbitrary: l)
  case 0
  then show ?case by simp
next
  case (Suc n)
  from Suc.prems obtain r l1 where n: "next l = Returns (r, l1)"
    by (cases "next l") auto
  show ?case
  proof (cases "\<not> isSectionAdornment r \<and> isEndOfLine r")
    case True
    with Suc.prems n show ?thesis by simp
  next
    case False
    show ?thesis
    proof (cases "isSectionAdornment r")
      case True
      with Suc.prems n
      have b: "bind (log_slice_nonempty l1) (\<lambda>_. lexSection_loop n l1) = Returns l'" by simp
      then have lg: "log_slice_nonempty l1 = Returns l1"
        using log_slice_nonempty_cases[of l1] by auto
      with b have "lexSection_loop n l1 = Returns l'" by simp
      from Suc.IH[OF this] True n lg show ?thesis by simp
    next
      case nad: False
      with False Suc.prems n have "lexSection_loop n l1 = Returns l'" by simp
      from Suc.IH[OF this] nad False n show ?thesis by simp
    qed
  qed
qed

lemma lexSection_mono:
  assumes "lexSection n l = Returns x"
  shows "lexSection (n + k) l = Returns x"
proof -
  from assms have g: "log_slice_nonempty l = Returns l"
    using log_slice_nonempty_cases[of l] by (auto simp: lexSection_def)
  then have body: "lexSection n l =
      bind (peek l) (\<lambda>(p, l1).
         bind (if isEndOfLine p then bind (emit itemTitle l1) (\<lambda>l2. Returns (ignore l2))
               else Returns l1) (\<lambda>l3.
           bind (lexSection_loop n l3) (\<lambda>l4. Returns (Some LexStart, l4))))" for n
    by (simp add: lexSection_def)
  from assms obtain p l1 where pk: "peek l = Returns (p, l1)"
    by (cases "peek l") (auto simp: body)
  define m where "m = (if isEndOfLine p then bind (emit itemTitle l1) (\<lambda>l2. Returns (ignore l2))
             else Returns l1)"
  from assms pk obtain l3 where l3: "m = Returns l3"
    by (cases m) (auto simp: body m_def)
  from assms pk l3 obtain l4 where l4: "lexSection_loop n l3 = Returns l4" "x = (Some LexStart, l4)"
    by (cases "lexSection_loop n l3") (auto simp: body m_def)
  from lexSection_loop_mono[OF l4(1), of k] pk l3 l4(2) show ?thesis
    by (simp add: body m_def)
qed

lemma run_loop_mono:
  "run_loop n l = Returns l' \<Longrightarrow> run_loop (n + k) l = Returns l'"
proof (induction n arbitrary: l)
  case 0
  then show ?case by (cases k) (auto split: option.splits)
next
  case (Suc n)
  show ?case
  proof (cases "state l")
    case None
    with Suc.prems show ?thesis by simp
  next
    case (Some f)
    show ?thesis
    proof (cases f)
      case LexStart
      with Some Suc.prems obtain s l1 where st: "lexStart l = Returns (s, l1)"
        by (cases "lexStart l") auto
      with Some LexStart Suc.prems have "run_loop n (l1\<lparr>state := s\<rparr>) = Returns l'" by simp
      from Suc.IH[OF this] st Some LexStart show ?thesis by simp
    next
      case LexSection
      with Some Suc.prems obtain s l1 where st: "lexSection n l = Returns (s, l1)"
        by (cases "lexSection n l") auto
      with Some LexSection Suc.prems have "run_loop n (l1\<lparr>state := s\<rparr>) = Returns l'" by simp
      from Suc.IH[OF this] lexSection_mono[OF st, of k] Some LexSection show ?thesis by simp
    qed
  qed
qed

lemma run_mono: "run n l = Returns l' \<Longrightarrow> run (n + k) l = Returns l'"
  by (simp add: run_def run_loop_mono)

section \<open>The invariant of a run\<close>

text \<open>
  What holds of every item sent: its kind is one of three, its position and text lie in
  the input, the text is the input from the position on, and its line is positive.
  \<open>items_ok\<close> adds that the positions increase strictly along the items.
\<close>

definition item_ok :: "string \<Rightarrow> item \<Rightarrow> bool" where
  "item_ok inp t =
     ((ElementType t = itemParagraph \<or> ElementType t = itemSectionAdornment \<or>
       ElementType t = itemEOF) \<and>
      0 \<le> Position t \<and> Position t + int (length (Value t)) \<le> int (length inp) \<and>
      Value t = slice inp (Position t) (Position t + int (length (Value t))) \<and>
      1 \<le> Line t)"

definition items_ok :: "string \<Rightarrow> item list \<Rightarrow> bool" where
  "items_ok inp ts = (list_all (item_ok inp) ts \<and> sorted_wrt (<) (map Position ts))"

text \<open>
  The invariant between two steps of a state function: the cursor is in the input, the
  start is not after it, and every item sent lies before the start and is not \<open>EOF\<close>.
  \<open>final_ok\<close> holds after the last item, \<open>unfinished_ok\<close> of a run that was cut.
\<close>

definition lexer_inv :: "lexer \<Rightarrow> bool" where
  "lexer_inv l =
     (0 \<le> start l \<and> start l \<le> pos l \<and> pos l \<le> int (length (input l)) \<and> 1 \<le> line l \<and>
      items_ok (input l) (items l) \<and>
      list_all (\<lambda>t. Position t < start l \<and> ElementType t \<noteq> itemEOF) (items l))"

definition final_ok :: "lexer \<Rightarrow> bool" where
  "final_ok l =
     (items_ok (input l) (items l) \<and> items l \<noteq> [] \<and>
      ElementType (last (items l)) = itemEOF \<and>
      list_all (\<lambda>t. ElementType t \<noteq> itemEOF) (butlast (items l)))"

definition adornment_at :: "lexer \<Rightarrow> bool" where
  "adornment_at l = isSectionAdornment (fst (DecodeRuneInString (drop (nat (pos l)) (input l))))"

lemma slice_length: "0 \<le> i \<Longrightarrow> i \<le> j \<Longrightarrow> j \<le> int (length s) \<Longrightarrow> int (length (slice s i j)) = j - i"
  by (simp add: slice_def)

text \<open>Sending one more item from a lexer that satisfies the invariant.\<close>

lemma items_ok_snoc:
  assumes "lexer_inv l" "k = itemParagraph \<or> k = itemSectionAdornment \<or> k = itemEOF" "1 \<le> n"
  shows "items_ok (input l)
           (items l @ [\<lparr>ElementName = nm, ElementType = k, Position = start l, Line = n,
                        Value = slice (input l) (start l) (pos l)\<rparr>])"
proof -
  from assms(1) have b: "0 \<le> start l" "start l \<le> pos l" "pos l \<le> int (length (input l))"
    by (simp_all add: lexer_inv_def)
  from slice_length[OF b] have len: "int (length (slice (input l) (start l) (pos l))) = pos l - start l" .
  from assms(1) have old: "list_all (item_ok (input l)) (items l)"
    "sorted_wrt (<) (map Position (items l))" "\<forall>t\<in>set (items l). Position t < start l"
    by (auto simp: lexer_inv_def items_ok_def list_all_iff)
  show ?thesis
    unfolding items_ok_def
    using old assms(2,3) b len
    by (auto simp: item_ok_def sorted_wrt_append)
qed

lemma emit_inv:
  assumes "lexer_inv l" "k = itemParagraph \<or> k = itemSectionAdornment \<or> k = itemEOF"
  shows "\<exists>l'. emit k l = Returns l' \<and> input l' = input l \<and> start l' = pos l \<and> pos l' = pos l \<and>
           line l' = line l \<and> items_ok (input l) (items l') \<and>
           list_all (\<lambda>t. Position t \<le> start l) (items l') \<and>
           (\<exists>e. items l' = items l @ [e] \<and> ElementType e = k)"
proof -
  from assms(1) have b: "0 \<le> start l" "start l \<le> pos l" "pos l \<le> int (length (input l))" "1 \<le> line l"
    by (simp_all add: lexer_inv_def)
  from assms(1) have old: "\<forall>t\<in>set (items l). Position t < start l"
    by (auto simp: lexer_inv_def list_all_iff)
  from items_ok_snoc[OF assms b(4)] b old show ?thesis
    by (auto simp: emit_def list_all_iff)
qed


lemma lexer_inv_width [simp]: "lexer_inv (l\<lparr>width := w\<rparr>) = lexer_inv l"
  by (simp add: lexer_inv_def)

lemma lexer_inv_state [simp]: "lexer_inv (l\<lparr>state := s\<rparr>) = lexer_inv l"
  by (simp add: lexer_inv_def)

lemma log_slice_inv: "lexer_inv l \<Longrightarrow> log_slice l = Returns l"
  by (simp add: lexer_inv_def log_slice_def)

lemma log_slice_nonempty_inv: "lexer_inv l \<Longrightarrow> log_slice_nonempty l = Returns l"
  by (simp add: log_slice_nonempty_def log_slice_inv)

lemma adornment_at_width [simp]: "adornment_at (l\<lparr>width := w\<rparr>) = adornment_at l"
  by (simp add: adornment_at_def)

lemma adornment_at_state [simp]: "adornment_at (l\<lparr>state := s\<rparr>) = adornment_at l"
  by (simp add: adornment_at_def)

lemma lexStart_switch_returns:
  assumes "lexer_inv l"
  shows "\<exists>ex l1. lexStart_switch l = Returns (ex, l1)"
proof -
  from assms have b: "0 \<le> start l" "start l \<le> pos l" "pos l \<le> int (length (input l))"
    by (simp_all add: lexer_inv_def)
  then show ?thesis
    by (auto simp: lexStart_switch_def current_def lexStart_case1_def lexStart_case2_def
        peek_def next_def backup_def emit_def Let_def split: prod.splits)
qed

lemma lexStart_switch_inv:
  assumes "lexer_inv l" "lexStart_switch l = Returns (ex, l1)"
  shows "input l1 = input l \<and> lexer_inv l1 \<and> pos l \<le> pos l1 \<and>
         (ex = None \<or> ex = Some (Returned (Some LexSection)) \<and> adornment_at l1)"
  using assms(2)
proof (cases rule: lexStart_switch_cases)
  case to_section
  with assms(1) show ?thesis by (simp add: adornment_at_def)
next
  case newline_emit
  from assms(1) have ln: "1 \<le> line l + 1" by (simp add: lexer_inv_def)
  from items_ok_snoc[OF assms(1) _ ln, of itemParagraph "''itemParagraph''"]
  have ok: "items_ok (input l)
     (items l @ [\<lparr>ElementName = ''itemParagraph'', ElementType = itemParagraph,
                  Position = start l, Line = line l + 1,
                  Value = slice (input l) (start l) (pos l)\<rparr>])" by simp
  from assms(1) have old: "\<forall>t\<in>set (items l). Position t < start l \<and> ElementType t \<noteq> itemEOF"
    by (auto simp: lexer_inv_def list_all_iff)
  from newline_emit assms(1) ok old show ?thesis
    by (auto simp: lexer_inv_def list_all_iff)
next
  case newline_skip
  with assms(1) show ?thesis by (auto simp: lexer_inv_def list_all_iff)
next
  case (other w)
  with assms(1) show ?thesis by simp
qed

lemma next_inv:
  assumes "lexer_inv l" "next l = Returns (r, l1)"
  shows "input l1 = input l \<and> lexer_inv l1 \<and> pos l \<le> pos l1 \<and> items l1 = items l"
  using assms(2)
proof (cases rule: next_cases)
  case eof
  with assms(1) show ?thesis by simp
next
  case (rune w)
  from decode_width_le[of "drop (nat (pos l)) (input l)"] rune
  have "pos l + w \<le> int (length (input l))" by simp
  with rune assms(1) show ?thesis by (auto simp: lexer_inv_def)
qed

definition exit_ok :: "loop_exit \<Rightarrow> lexer \<Rightarrow> bool" where
  "exit_ok e l =
     (case e of
        Broke \<Rightarrow> lexer_inv l
      | Returned None \<Rightarrow> final_ok l
      | Returned (Some f) \<Rightarrow> f = LexSection \<and> lexer_inv l \<and> adornment_at l)"

lemma final_ok_snoc:
  assumes "items_ok (input l) (items l)" "items l = ts @ [e]" "ElementType e = itemEOF"
    "list_all (\<lambda>t. ElementType t \<noteq> itemEOF) ts"
  shows "final_ok l"
  using assms by (simp add: final_ok_def)

lemma lexStart_iter_inv:
  assumes "lexer_inv l"
  shows "\<exists>ex l1. lexStart_iter l = Returns (ex, l1) \<and> input l1 = input l \<and>
           (case ex of None \<Rightarrow> lexer_inv l1 | Some e \<Rightarrow> exit_ok e l1)"
proof (cases "input l = []")
  case True
  from emit_inv[OF assms, of itemEOF] obtain l' e where
    l': "emit itemEOF l = Returns l'" "input l' = input l" "items_ok (input l) (items l')"
    "items l' = items l @ [e]" "ElementType e = itemEOF" by auto
  from assms have "list_all (\<lambda>t. ElementType t \<noteq> itemEOF) (items l)"
    by (auto simp: lexer_inv_def list_all_iff)
  with l' have "final_ok l'" by (intro final_ok_snoc[of l' "items l" e]) simp_all
  with True l' show ?thesis by (simp add: lexStart_iter_def exit_ok_def)
next
  case False
  from lexStart_switch_returns[OF assms] obtain ex l1 where sw: "lexStart_switch l = Returns (ex, l1)"
    by blast
  from lexStart_switch_inv[OF assms sw] have i1: "input l1 = input l" "lexer_inv l1"
    and ex: "ex = None \<or> ex = Some (Returned (Some LexSection)) \<and> adornment_at l1" by simp_all
  show ?thesis
  proof (cases ex)
    case None
    from i1(2) have "0 \<le> pos l1" by (simp add: lexer_inv_def)
    then obtain r l2 where n: "next l1 = Returns (r, l2)" using next_total by blast
    from next_inv[OF i1(2) n] i1 sw None n False log_slice_inv[OF assms] show ?thesis
      by (simp add: lexStart_iter_def exit_ok_def)
  next
    case (Some e)
    with ex i1 sw False log_slice_inv[OF assms] show ?thesis
      by (simp add: lexStart_iter_def exit_ok_def)
  qed
qed

lemma lexStart_loop_inv:
  "lexer_inv l \<Longrightarrow>
     \<exists>e l'. lexStart_loop l = Returns (e, l') \<and> input l' = input l \<and> exit_ok e l'"
proof (induction l rule: lexStart_loop.induct)
  case (1 l)
  from lexStart_iter_inv[OF "1.prems"] obtain ex l1 where
    it: "lexStart_iter l = Returns (ex, l1)" "input l1 = input l"
    and post: "case ex of None \<Rightarrow> lexer_inv l1 | Some e \<Rightarrow> exit_ok e l1" by blast
  show ?case
  proof (cases ex)
    case None
    with post have "lexer_inv l1" by simp
    from "1.IH"[OF it(1)[unfolded None] refl refl this] it None show ?thesis
      by (subst lexStart_loop.simps) simp
  next
    case (Some e)
    with post it show ?thesis by (subst lexStart_loop.simps) simp
  qed
qed


definition state_inv :: "lexer \<Rightarrow> bool" where
  "state_inv l =
     (case state l of
        None \<Rightarrow> final_ok l
      | Some LexStart \<Rightarrow> lexer_inv l
      | Some LexSection \<Rightarrow> lexer_inv l \<and> adornment_at l)"

definition unfinished_ok :: "lexer \<Rightarrow> bool" where
  "unfinished_ok l =
     (items_ok (input l) (items l) \<and> list_all (\<lambda>t. ElementType t \<noteq> itemEOF) (items l))"

lemma lexer_inv_unfinished: "lexer_inv l \<Longrightarrow> unfinished_ok l"
  by (auto simp: lexer_inv_def unfinished_ok_def list_all_iff)

lemma lexStart_inv:
  assumes "lexer_inv l"
  shows "\<exists>s l'. lexStart l = Returns (s, l') \<and> input l' = input l \<and>
           state_inv (l'\<lparr>state := s\<rparr>)"
proof -
  from lexStart_loop_inv[OF assms] obtain e l1 where
    lp: "lexStart_loop l = Returns (e, l1)" "input l1 = input l" "exit_ok e l1" by blast
  show ?thesis
  proof (cases e)
    case (Returned s)
    with lp show ?thesis
      by (cases s) (auto simp: lexStart_def exit_ok_def state_inv_def final_ok_def items_ok_def)
  next
    case Broke
    with lp have inv1: "lexer_inv l1" by (simp add: exit_ok_def)
    then have noeof: "list_all (\<lambda>t. ElementType t \<noteq> itemEOF) (items l1)"
      by (auto simp: lexer_inv_def list_all_iff)
    show ?thesis
    proof (cases "start l1 < pos l1")
      case False
      from emit_inv[OF inv1, of itemEOF] obtain l3 e3 where
        l3: "emit itemEOF l1 = Returns l3" "input l3 = input l1" "items_ok (input l1) (items l3)"
        "items l3 = items l1 @ [e3]" "ElementType e3 = itemEOF" by auto
      with noeof have "final_ok l3" by (intro final_ok_snoc[of l3 "items l1" e3]) simp_all
      with l3 lp Broke False show ?thesis
        by (simp add: lexStart_def state_inv_def final_ok_def items_ok_def)
    next
      case True
      from emit_inv[OF inv1, of itemParagraph] obtain l2 e2 where
        l2: "emit itemParagraph l1 = Returns l2" "input l2 = input l1" "start l2 = pos l1"
        "pos l2 = pos l1" "line l2 = line l1" "items_ok (input l1) (items l2)"
        "list_all (\<lambda>t. Position t \<le> start l1) (items l2)"
        "items l2 = items l1 @ [e2]" "ElementType e2 = itemParagraph" by auto
      from inv1 l2 True noeof have inv2: "lexer_inv l2"
        by (auto simp: lexer_inv_def list_all_iff)
      from emit_inv[OF inv2, of itemEOF] obtain l3 e3 where
        l3: "emit itemEOF l2 = Returns l3" "input l3 = input l2" "items_ok (input l2) (items l3)"
        "items l3 = items l2 @ [e3]" "ElementType e3 = itemEOF" by auto
      from inv2 have "list_all (\<lambda>t. ElementType t \<noteq> itemEOF) (items l2)"
        by (auto simp: lexer_inv_def list_all_iff)
      with l3 have "final_ok l3" by (intro final_ok_snoc[of l3 "items l2" e3]) simp_all
      with l2 l3 lp Broke True show ?thesis
        by (simp add: lexStart_def state_inv_def final_ok_def items_ok_def)
    qed
  qed
qed

text \<open>
  \<open>outcome_ok Q R m\<close>: the call \<open>m\<close> did not panic; \<open>Q\<close> holds of what it returned, or
  \<open>R\<close> of the lexer it was cut at.
\<close>

fun outcome_ok :: "('a \<Rightarrow> bool) \<Rightarrow> (lexer \<Rightarrow> bool) \<Rightarrow> 'a outcome \<Rightarrow> bool" where
  "outcome_ok Q R (Returns x) = Q x"
| "outcome_ok Q R (Panics l) = False"
| "outcome_ok Q R (OutOfFuel l) = R l"

lemma outcome_ok_mono:
  assumes "outcome_ok Q R m" "\<And>x. Q x \<Longrightarrow> Q' x" "\<And>l. R l \<Longrightarrow> R' l"
  shows "outcome_ok Q' R' m"
  using assms by (cases m) simp_all

lemma outcome_ok_bind:
  assumes "outcome_ok (\<lambda>x. outcome_ok Q R (f x)) R m"
  shows "outcome_ok Q R (bind m f)"
  using assms by (cases m) simp_all

lemma lexSection_loop_inv:
  "lexer_inv l \<Longrightarrow>
     outcome_ok (\<lambda>l'. input l' = input l \<and> lexer_inv l')
       (\<lambda>l'. input l' = input l \<and> unfinished_ok l') (lexSection_loop n l)"
proof (induction n arbitrary: l)
  case 0
  then show ?case by (simp add: lexer_inv_unfinished)
next
  case (Suc n)
  from Suc.prems have "0 \<le> pos l" by (simp add: lexer_inv_def)
  then obtain r l1 where n: "next l = Returns (r, l1)" using next_total by blast
  from next_inv[OF Suc.prems n] have i1: "input l1 = input l" "lexer_inv l1" by simp_all
  from Suc.IH[OF i1(2)] i1(1)
  have rec: "outcome_ok (\<lambda>l'. input l' = input l \<and> lexer_inv l')
       (\<lambda>l'. input l' = input l \<and> unfinished_ok l') (lexSection_loop n l1)"
    by simp
  show ?case
  proof (cases "\<not> isSectionAdornment r \<and> isEndOfLine r")
    case False
    with rec n log_slice_nonempty_inv[OF i1(2)] show ?thesis by auto
  next
    case True
    then have eol: "isEndOfLine r" and nad: "\<not> isSectionAdornment r" by simp_all
    from endOfLine_ascii[OF eol] have ne: "r \<noteq> EOF" by (auto simp: EOF_def)
    from n ne obtain w where d: "DecodeRuneInString (drop (nat (pos l)) (input l)) = (r, w)"
      and b: "0 \<le> pos l" "pos l < int (length (input l))"
      and l1: "l1 = l\<lparr>width := w, pos := pos l + w\<rparr>"
      by (cases rule: next_cases) auto
    have bk: "backup l1 = l\<lparr>width := w\<rparr>" using l1 by (simp add: backup_def)
    from emit_inv[of "l\<lparr>width := w\<rparr>" itemSectionAdornment] Suc.prems obtain l2 e2 where
      l2: "emit itemSectionAdornment (l\<lparr>width := w\<rparr>) = Returns l2" "input l2 = input l"
      "start l2 = pos l" "pos l2 = pos l" "line l2 = line l" "items_ok (input l) (items l2)"
      "list_all (\<lambda>t. Position t \<le> start l) (items l2)"
      "items l2 = items l @ [e2]" "ElementType e2 = itemSectionAdornment" by auto
    from Suc.prems have old: "\<forall>t\<in>set (items l). ElementType t \<noteq> itemEOF" "1 \<le> line l"
      "start l \<le> pos l" "0 \<le> start l"
      by (auto simp: lexer_inv_def list_all_iff)
    have "lexer_inv (ignore (l2\<lparr>line := line l2 + 1\<rparr>))"
      using l2 old b by (auto simp: lexer_inv_def ignore_def list_all_iff)
    with n eol nad bk l2 show ?thesis by (simp add: ignore_def)
  qed
qed

lemma lexSection_inv:
  assumes "lexer_inv l" "adornment_at l"
  shows "outcome_ok (\<lambda>(s, l'). input l' = input l \<and> s = Some LexStart \<and> lexer_inv l')
           (\<lambda>l'. input l' = input l \<and> unfinished_ok l') (lexSection n l)"
proof -
  from assms(1) have "0 \<le> pos l" by (simp add: lexer_inv_def)
  then obtain p l1 where pk: "peek l = Returns (p, l1)" using peek_total by blast
  from pk assms(2) have "isSectionAdornment p \<and> (\<exists>w. l1 = l\<lparr>width := w\<rparr>)"
  proof (cases rule: peek_cases)
    case eof
    with assms(2) show ?thesis using adornment_ascii[of RuneError]
      by (simp add: adornment_at_def RuneError_def)
  next
    case (rune w)
    with assms(2) show ?thesis by (auto simp: adornment_at_def)
  qed
  then obtain w where ad: "isSectionAdornment p" and l1: "l1 = l\<lparr>width := w\<rparr>" by blast
  from adornment_ascii[OF ad] have neol: "\<not> isEndOfLine p" by (auto simp: isEndOfLine_def)
  from lexSection_loop_inv[of l1 n] assms(1) l1
  have "outcome_ok (\<lambda>l'. input l' = input l \<and> lexer_inv l')
       (\<lambda>l'. input l' = input l \<and> unfinished_ok l') (lexSection_loop n l1)" by simp
  with pk neol log_slice_nonempty_inv[OF assms(1)] show ?thesis
    by (cases "lexSection_loop n l1") (simp_all add: lexSection_def)
qed

lemma run_loop_inv:
  "state_inv l \<Longrightarrow>
     outcome_ok (\<lambda>l'. input l' = input l \<and> final_ok l')
       (\<lambda>l'. input l' = input l \<and> unfinished_ok l') (run_loop n l)"
proof (induction n arbitrary: l)
  case 0
  then show ?case
    by (auto simp: state_inv_def lexer_inv_unfinished split: option.splits stateFn.splits)
next
  case (Suc n)
  show ?case
  proof (cases "state l")
    case None
    with Suc.prems show ?thesis by (simp add: state_inv_def)
  next
    case (Some f)
    show ?thesis
    proof (cases f)
      case LexStart
      with Some Suc.prems have "lexer_inv l" by (simp add: state_inv_def)
      from lexStart_inv[OF this] obtain s l' where
        st: "lexStart l = Returns (s, l')" "input l' = input l" "state_inv (l'\<lparr>state := s\<rparr>)"
        by blast
      from Suc.IH[OF st(3)] st(1,2) Some LexStart show ?thesis
        by (cases "run_loop n (l'\<lparr>state := s\<rparr>)") simp_all
    next
      case LexSection
      with Some Suc.prems have inv: "lexer_inv l" "adornment_at l" by (simp_all add: state_inv_def)
      note sec = lexSection_inv[OF inv, of n]
      show ?thesis
      proof (cases "lexSection n l")
        case (Returns x)
        obtain s l' where x: "x = (s, l')" by (cases x)
        with Returns sec
        have p: "input l' = input l" "s = Some LexStart" "lexer_inv l'" by simp_all
        then have "state_inv (l'\<lparr>state := s\<rparr>)" by (simp add: state_inv_def)
        from Suc.IH[OF this] p Returns x Some LexSection show ?thesis
          by (cases "run_loop n (l'\<lparr>state := s\<rparr>)") simp_all
      next
        case (Panics x)
        with sec show ?thesis by simp
      next
        case (OutOfFuel x)
        with sec Some LexSection show ?thesis by simp
      qed
    qed
  qed
qed

lemma lex_inv: "lexer_inv (lex nm inp)"
  by (simp add: lexer_inv_def lex_def items_ok_def)

lemma run_inv:
  "outcome_ok (\<lambda>l'. input l' = inp \<and> final_ok l') (\<lambda>l'. input l' = inp \<and> unfinished_ok l')
     (run n (lex nm inp))"
proof -
  have "state_inv ((lex nm inp)\<lparr>state := Some LexStart\<rparr>)"
    using lex_inv[of nm inp] by (simp add: state_inv_def)
  from run_loop_inv[OF this, of n] show ?thesis
    by (simp add: run_def lex_def)
qed

section \<open>Runs of the lexer\<close>

abbreviation NL :: char where
  "NL \<equiv> CHR 0x0A"

text \<open>
  At the end of the input \<open>next\<close> returns \<open>EOF\<close>, which is neither an adornment nor an
  end of line: the loop of \<open>lexSection\<close> goes round without sending anything, whatever the
  budget.
\<close>

lemma lexSection_loop_spins_at_end:
  "int (length (input l)) \<le> pos l \<Longrightarrow>
     \<exists>l'. lexSection_loop n l = OutOfFuel l' \<and> items l' = items l"
proof (induction n arbitrary: l)
  case 0
  then show ?case by simp
next
  case (Suc n)
  from Suc.prems have n: "next l = Returns (EOF, l\<lparr>width := 0\<rparr>)"
    by (simp add: next_def)
  have e: "\<not> isSectionAdornment EOF" "\<not> isEndOfLine EOF"
    by (simp_all add: EOF_def isSectionAdornment_def sectionAdornments_def isEndOfLine_def)
  from Suc.IH[of "l\<lparr>width := 0\<rparr>"] Suc.prems n e show ?case by simp
qed

lemma lexStart_loop_to_section:
  "lexStart_loop l = Returns (Returned (Some f), l') \<Longrightarrow>
     f = LexSection \<and> input l' = input l \<and> pos l' = 1 \<and> adornment_at l'"
proof (induction l rule: lexStart_loop.induct)
  case (1 l)
  from "1.prems" obtain ex l1 where it: "lexStart_iter l = Returns (ex, l1)"
    by (subst (asm) lexStart_loop.simps) (auto split: outcome.splits)
  show ?case
  proof (cases ex)
    case None
    with it "1.prems" have "lexStart_loop l1 = Returns (Returned (Some f), l')"
      by (subst (asm) lexStart_loop.simps) simp
    from "1.IH"[OF it[unfolded None] refl refl this] lexStart_iter_advances[OF it[unfolded None]]
    show ?thesis by simp
  next
    case (Some e)
    with it "1.prems" have e: "e = Returned (Some f)" "l1 = l'"
      by (subst (asm) lexStart_loop.simps, simp)+
    from it[unfolded Some e] have "lexStart_switch l = Returns (Some (Returned (Some f)), l')"
      by (cases rule: lexStart_iter_cases) auto
    then show ?thesis
      by (cases rule: lexStart_switch_cases) (auto simp: adornment_at_def)
  qed
qed

text \<open>The loop of \<open>lexStart\<close> never moves the cursor back.\<close>

lemma lexStart_loop_pos_mono:
  "lexStart_loop l = Returns (e, l') \<Longrightarrow> pos l \<le> pos l'"
proof (induction l rule: lexStart_loop.induct)
  case (1 l)
  from "1.prems" obtain ex l1 where it: "lexStart_iter l = Returns (ex, l1)"
    by (subst (asm) lexStart_loop.simps) (auto split: outcome.splits)
  show ?case
  proof (cases ex)
    case None
    with it "1.prems" have "lexStart_loop l1 = Returns (e, l')"
      by (subst (asm) lexStart_loop.simps) simp
    from "1.IH"[OF it[unfolded None] refl refl this] lexStart_iter_advances[OF it[unfolded None]]
    show ?thesis by simp
  next
    case (Some x)
    with it "1.prems" have e: "x = e" "l1 = l'"
      by (subst (asm) lexStart_loop.simps, simp)+
    from it[unfolded Some e] show ?thesis
    proof (cases rule: lexStart_iter_cases)
      case empty
      then show ?thesis by (auto simp: emit_def split: if_splits)
    next
      case to_section
      from to_section(3) show ?thesis by (cases rule: lexStart_switch_cases) auto
    next
      case (broke l2)
      from broke(3) have "pos l \<le> pos l2" by (cases rule: lexStart_switch_cases) auto
      with broke show ?thesis by simp
    qed simp
  qed
qed

lemma lexStart_to_section:
  assumes "lexStart l = Returns (Some f, l')"
  shows "f = LexSection \<and> input l' = input l \<and> pos l' = 1 \<and> adornment_at l' \<and> pos l \<le> 1"
proof -
  from assms obtain e l1 where lp: "lexStart_loop l = Returns (e, l1)"
    by (cases "lexStart_loop l") (auto simp: lexStart_def)
  show ?thesis
  proof (cases e)
    case Broke
    with assms lp have False
      by (auto simp: lexStart_def emit_def split: if_splits)
    then show ?thesis ..
  next
    case (Returned s)
    with assms lp have "s = Some f" "l1 = l'" by (simp_all add: lexStart_def)
    with lp Returned lexStart_loop_to_section[of l f l'] lexStart_loop_pos_mono[of l e l1]
    show ?thesis by simp
  qed
qed









text \<open>
  The document of the first example scenario: \<open>Title\<close>, newline, \<open>=====\<close>, two newlines,
  \<open>Paragraph text\<close>, newline.
\<close>

definition title_paragraph_doc :: string where
  "title_paragraph_doc = ''Title'' @ [NL] @ ''====='' @ [NL, NL] @ ''Paragraph text'' @ [NL]"

text \<open>
  Claim C2, as the code has it: on that document the run returns after four items, in
  this order: one with the text \<open>Title\<close>, one with the text \<open>=====\<close>, a Paragraph whose
  text ends in \<open>Paragraph text\<close>, and EOF. No BlankLine item is sent.
\<close>

theorem title_paragraph_tokens:
  "result (run 2 (lex nm title_paragraph_doc)) \<noteq> None \<and>
   length (emitted (run 2 (lex nm title_paragraph_doc))) = 4 \<and>
   Value (emitted (run 2 (lex nm title_paragraph_doc)) ! 0) = ''Title'' \<and>
   Value (emitted (run 2 (lex nm title_paragraph_doc)) ! 1) = ''====='' \<and>
   ElementType (emitted (run 2 (lex nm title_paragraph_doc)) ! 2) = itemParagraph \<and>
   suffix ''Paragraph text'' (Value (emitted (run 2 (lex nm title_paragraph_doc)) ! 2)) \<and>
   ElementType (emitted (run 2 (lex nm title_paragraph_doc)) ! 3) = itemEOF \<and>
   itemBlankLine \<notin> set (kinds (emitted (run 2 (lex nm title_paragraph_doc))))"
  by code_simp

text \<open>
  Claim C2 as stated fails: the kinds are Paragraph, Paragraph, Paragraph, EOF, not
  Title, SectionAdornment, BlankLine, Paragraph, EOF, and the third text begins with the
  newline of the blank line.
\<close>

theorem title_paragraph_counterexample:
  "result (run 2 (lex ''doc'' title_paragraph_doc)) \<noteq> None \<and>
   kinds (emitted (run 2 (lex ''doc'' title_paragraph_doc))) =
     [itemParagraph, itemParagraph, itemParagraph, itemEOF] \<and>
   texts (emitted (run 2 (lex ''doc'' title_paragraph_doc))) =
     [''Title'', ''====='', NL # ''Paragraph text'', []] \<and>
   kinds (emitted (run 2 (lex ''doc'' title_paragraph_doc))) \<noteq>
     [itemTitle, itemSectionAdornment, itemBlankLine, itemParagraph, itemEOF]"
  by code_simp

text \<open>
  A run from a fresh lexer never panics, and the items it has sent, when it returned and
  when it was cut, satisfy \<open>items_ok\<close>. A run that returns has sent \<open>EOF\<close> last and once,
  after Paragraph and SectionAdornment items only.
\<close>

lemma run_never_panics: "run fuel (lex nm inp) \<noteq> Panics l"
  using run_inv[of inp fuel nm] by (cases "run fuel (lex nm inp)") auto

lemma emitted_items_ok: "items_ok inp (emitted (run fuel (lex nm inp)))"
  using run_inv[of inp fuel nm]
  by (cases "run fuel (lex nm inp)") (auto simp: final_ok_def unfinished_ok_def)

lemma run_returns_one_EOF:
  assumes "run fuel (lex nm inp) = Returns l"
  shows "items l \<noteq> [] \<and> ElementType (last (items l)) = itemEOF \<and>
         list_all (\<lambda>t. ElementType t = itemParagraph \<or> ElementType t = itemSectionAdornment)
           (butlast (items l))"
proof -
  from run_inv[of inp fuel nm] assms have f: "final_ok l" by simp
  from f have ok: "\<forall>t\<in>set (items l). ElementType t = itemParagraph \<or>
      ElementType t = itemSectionAdornment \<or> ElementType t = itemEOF"
    by (auto simp: final_ok_def items_ok_def item_ok_def list_all_iff)
  from f have ne: "\<forall>t\<in>set (butlast (items l)). ElementType t \<noteq> itemEOF"
    by (auto simp: final_ok_def list_all_iff)
  from ok ne have "\<forall>t\<in>set (butlast (items l)). ElementType t = itemParagraph \<or>
      ElementType t = itemSectionAdornment"
    by (meson in_set_butlastD)
  with f show ?thesis by (simp add: final_ok_def list_all_iff)
qed

text \<open>
  When a run returns. \<open>enters_section\<close>: the first call of \<open>lexStart\<close> hands over to
  \<open>lexSection\<close>; \<open>no_eol_from p s\<close>: no byte of \<open>s\<close> from offset \<open>p\<close> on is a carriage
  return or a line feed. A run returns, on the budget \<open>length inp + 2\<close>, unless
  \<open>lexSection\<close> is entered and no end of line follows; then it returns on no budget.
\<close>

definition no_eol_from :: "nat \<Rightarrow> string \<Rightarrow> bool" where
  "no_eol_from p s = list_all (\<lambda>c. \<not> isEndOfLine (of_char c)) (drop p s)"

lemma lexSection_loop_spins:
  "lexer_inv l \<Longrightarrow> no_eol_from (nat (pos l)) (input l) \<Longrightarrow>
     \<exists>l'. lexSection_loop n l = OutOfFuel l'"
proof (induction n arbitrary: l)
  case 0
  then show ?case by simp
next
  case (Suc n)
  from Suc.prems(1) have "0 \<le> pos l" by (simp add: lexer_inv_def)
  then obtain r l1 where n: "next l = Returns (r, l1)" using next_total by blast
  from next_inv[OF Suc.prems(1) n] have inv1: "lexer_inv l1" by simp
  have "\<not> isEndOfLine r \<and> no_eol_from (nat (pos l1)) (input l1)"
    using n
  proof (cases rule: next_cases)
    case eof
    with Suc.prems show ?thesis by (simp add: EOF_def isEndOfLine_def)
  next
    case (rune w)
    let ?s = "drop (nat (pos l)) (input l)"
    from rune(2,3) have ne: "?s \<noteq> []" by simp
    have "\<not> isEndOfLine r"
    proof
      assume "isEndOfLine r"
      from decode_eol_rune[OF rune(4) this] have "r = of_char (hd ?s)" "hd ?s \<in> set ?s"
        using ne by simp_all
      with Suc.prems(2) \<open>isEndOfLine r\<close> show False
        by (auto simp: no_eol_from_def list_all_iff)
    qed
    moreover have "drop (nat (pos l + w)) (input l) = drop (nat w) ?s"
      using rune(2,5) by (simp add: nat_add_distrib add.commute)
    then have "set (drop (nat (pos l + w)) (input l)) \<subseteq> set ?s"
      using set_drop_subset[of "nat w" ?s] by simp
    with Suc.prems(2) have "no_eol_from (nat (pos l + w)) (input l)"
      by (auto simp: no_eol_from_def list_all_iff)
    ultimately show ?thesis using rune by simp
  qed
  with Suc.IH[OF inv1] n log_slice_nonempty_inv[OF inv1] show ?case by auto
qed

lemma lexSection_loop_returns:
  "lexer_inv l \<Longrightarrow> \<not> no_eol_from (nat (pos l)) (input l) \<Longrightarrow>
   length (input l) - nat (pos l) \<le> n \<Longrightarrow>
     \<exists>l'. lexSection_loop n l = Returns l' \<and> pos l < pos l'"
proof (induction n arbitrary: l)
  case 0
  then show ?case by (simp add: no_eol_from_def)
next
  case (Suc n)
  let ?s = "drop (nat (pos l)) (input l)"
  from Suc.prems(2) obtain c where c: "c \<in> set ?s" "isEndOfLine (of_char c)"
    by (auto simp: no_eol_from_def list_all_iff)
  from Suc.prems(1) have b: "0 \<le> pos l" "0 \<le> start l" "start l \<le> pos l"
    by (simp_all add: lexer_inv_def)
  from c(1) b(1) have lt: "pos l < int (length (input l))" by (cases "pos l < int (length (input l))") auto
  from b(1) obtain r l1 where n: "next l = Returns (r, l1)" using next_total by blast
  from n lt obtain w where d: "DecodeRuneInString ?s = (r, w)" "1 \<le> w"
    and l1: "l1 = l\<lparr>width := w, pos := pos l + w\<rparr>"
    by (cases rule: next_cases) auto
  show ?case
  proof (cases "isEndOfLine r")
    case True
    from adornment_ascii[of r] endOfLine_ascii[OF True] have nad: "\<not> isSectionAdornment r" by auto
    have bk: "backup l1 = l\<lparr>width := w\<rparr>" using l1 by (simp add: backup_def)
    from emit_inv[of "l\<lparr>width := w\<rparr>" itemSectionAdornment] Suc.prems(1) obtain l2 where
      "emit itemSectionAdornment (l\<lparr>width := w\<rparr>) = Returns l2" "pos l2 = pos l" by auto
    with n True nad bk show ?thesis by (simp add: ignore_def)
  next
    case False
    from eol_byte_after_rune[OF d(1) False c] have "c \<in> set (drop (nat w) ?s)" .
    moreover have "drop (nat (pos l + w)) (input l) = drop (nat w) ?s"
      using b(1) d(2) by (simp add: nat_add_distrib add.commute)
    ultimately have ne: "\<not> no_eol_from (nat (pos l1)) (input l1)"
      using c(2) l1 by (auto simp: no_eol_from_def list_all_iff)
    from next_inv[OF Suc.prems(1) n] have inv1: "lexer_inv l1" by simp
    from Suc.prems(3) l1 b(1) d(2) lt have "length (input l1) - nat (pos l1) \<le> n"
      by (simp add: nat_add_distrib)
    from Suc.IH[OF inv1 ne this] obtain l' where "lexSection_loop n l1 = Returns l'" "pos l1 < pos l'"
      by blast
    with n False l1 d(2) log_slice_nonempty_inv[OF inv1] show ?thesis by auto
  qed
qed

definition enters_section :: "string \<Rightarrow> string \<Rightarrow> bool" where
  "enters_section nm inp =
     (map_option fst (result (lexStart ((lex nm inp)\<lparr>state := Some LexStart\<rparr>))) =
        Some (Some LexSection))"

lemma run_spins:
  assumes "enters_section nm inp" "no_eol_from 1 inp"
  shows "\<exists>l. run fuel (lex nm inp) = OutOfFuel l"
proof -
  let ?l0 = "(lex nm inp)\<lparr>state := Some LexStart\<rparr>"
  from assms(1) obtain l1 where st: "lexStart ?l0 = Returns (Some LexSection, l1)"
    by (cases "lexStart ?l0") (auto simp: enters_section_def)
  from lexStart_to_section[OF st] have l1: "input l1 = inp" "pos l1 = 1" "adornment_at l1"
    by (simp_all add: lex_def)
  have "lexer_inv ?l0" using lex_inv[of nm inp] by simp
  from lexStart_inv[OF this] st have inv1: "lexer_inv l1" by (auto simp: state_inv_def)
  have sec: "\<exists>l'. lexSection m (l1\<lparr>state := Some LexSection\<rparr>) = OutOfFuel l'" for m
  proof -
    let ?l = "l1\<lparr>state := Some LexSection\<rparr>"
    have "0 \<le> pos ?l" using l1 by simp
    then obtain p l2 where pk: "peek ?l = Returns (p, l2)" using peek_total by blast
    from pk l1 have "isSectionAdornment p \<and> (\<exists>w. l2 = ?l\<lparr>width := w\<rparr>)"
    proof (cases rule: peek_cases)
      case eof
      with l1(3) show ?thesis using adornment_ascii[of RuneError]
        by (simp add: adornment_at_def RuneError_def)
    next
      case (rune w)
      with l1(3) show ?thesis by (auto simp: adornment_at_def)
    qed
    then obtain w where ad: "isSectionAdornment p" and l2: "l2 = ?l\<lparr>width := w\<rparr>" by blast
    from adornment_ascii[OF ad] have neol: "\<not> isEndOfLine p" by (auto simp: isEndOfLine_def)
    from lexSection_loop_spins[of l2 m] l1 l2 inv1 assms(2)
    obtain l' where "lexSection_loop m l2 = OutOfFuel l'" by auto
    with pk neol log_slice_nonempty_inv[of ?l] inv1 show ?thesis by (simp add: lexSection_def)
  qed
  show ?thesis
  proof (cases fuel)
    case 0
    then show ?thesis by (simp add: run_def)
  next
    case (Suc n)
    show ?thesis
    proof (cases n)
      case 0
      with Suc st show ?thesis by (simp add: run_def)
    next
      case (Suc m)
      from sec[of m] obtain l' where "lexSection m (l1\<lparr>state := Some LexSection\<rparr>) = OutOfFuel l'"
        by blast
      with Suc \<open>fuel = Suc n\<close> st show ?thesis by (simp add: run_def)
    qed
  qed
qed

lemma run_returns:
  assumes "\<not> (enters_section nm inp \<and> no_eol_from 1 inp)"
  shows "\<exists>l. run (length inp + 2) (lex nm inp) = Returns l"
proof -
  let ?l0 = "(lex nm inp)\<lparr>state := Some LexStart\<rparr>"
  have inv0: "lexer_inv ?l0" using lex_inv[of nm inp] by simp
  from lexStart_inv[OF inv0] obtain s l1 where
    st: "lexStart ?l0 = Returns (s, l1)" "state_inv (l1\<lparr>state := s\<rparr>)" by blast
  show ?thesis
  proof (cases s)
    case None
    with st show ?thesis by (simp add: run_def)
  next
    case (Some f)
    from lexStart_to_section[OF st(1)[unfolded Some]]
    have l1: "f = LexSection" "input l1 = inp" "pos l1 = 1" by (simp_all add: lex_def)
    from st(2) Some l1(1) have inv1: "lexer_inv l1" "adornment_at l1" by (simp_all add: state_inv_def)
    from st(1) Some l1(1) have "enters_section nm inp" by (simp add: enters_section_def)
    with assms have eol: "\<not> no_eol_from 1 inp" by simp
    from inv1(1) l1 have len: "1 \<le> length inp" by (simp add: lexer_inv_def)
    let ?l = "l1\<lparr>state := Some LexSection\<rparr>"
    have "0 \<le> pos ?l" using l1 by simp
    then obtain p l2 where pk: "peek ?l = Returns (p, l2)" using peek_total by blast
    from pk l1 have "isSectionAdornment p \<and> (\<exists>w. l2 = ?l\<lparr>width := w\<rparr>)"
    proof (cases rule: peek_cases)
      case eof
      with inv1(2) show ?thesis using adornment_ascii[of RuneError]
        by (simp add: adornment_at_def RuneError_def)
    next
      case (rune w)
      with inv1(2) show ?thesis by (auto simp: adornment_at_def)
    qed
    then obtain w where ad: "isSectionAdornment p" and l2: "l2 = ?l\<lparr>width := w\<rparr>" by blast
    from adornment_ascii[OF ad] have neol: "\<not> isEndOfLine p" by (auto simp: isEndOfLine_def)
    have inv2: "lexer_inv l2" using inv1(1) l2 by simp
    from lexSection_loop_returns[OF inv2, of "length inp"] eol l1 l2
    obtain l3 where l3: "lexSection_loop (length inp) l2 = Returns l3" "1 < pos l3" by auto
    from lexSection_loop_inv[OF inv2, of "length inp"] l3 have inv3: "lexer_inv l3" by simp
    from pk neol l3 log_slice_nonempty_inv[of ?l] inv1(1)
    have sec: "lexSection (length inp) ?l = Returns (Some LexStart, l3)"
      by (simp add: lexSection_def)
    let ?l3 = "l3\<lparr>state := Some LexStart\<rparr>"
    from lexStart_inv[of ?l3] inv3 obtain s4 l4 where
      st4: "lexStart ?l3 = Returns (s4, l4)" by auto
    have "s4 = None"
    proof (cases s4)
      case (Some g)
      from lexStart_to_section[OF st4[unfolded Some]] l3(2) show ?thesis by simp
    qed simp
    from len obtain k where k: "length inp = Suc k" by (cases "length inp") auto
    have "run_loop (length inp) ?l3 = Returns (l4\<lparr>state := None\<rparr>)"
      using st4 \<open>s4 = None\<close> k by (cases k) simp_all
    with st(1) Some l1(1) sec show ?thesis by (simp add: run_def)
  qed
qed

lemma run_returns_iff:
  "(\<exists>fuel l. run fuel (lex nm inp) = Returns l) \<longleftrightarrow>
     \<not> (enters_section nm inp \<and> no_eol_from 1 inp)"
proof
  assume "\<exists>fuel l. run fuel (lex nm inp) = Returns l"
  then obtain fuel l where r: "run fuel (lex nm inp) = Returns l" by blast
  show "\<not> (enters_section nm inp \<and> no_eol_from 1 inp)"
  proof
    assume "enters_section nm inp \<and> no_eol_from 1 inp"
    then obtain l' where "run fuel (lex nm inp) = OutOfFuel l'" using run_spins by blast
    with r show False by simp
  qed
next
  assume "\<not> (enters_section nm inp \<and> no_eol_from 1 inp)"
  from run_returns[OF this] show "\<exists>fuel l. run fuel (lex nm inp) = Returns l" by blast
qed

text \<open>
  Claim C1 at the input \<open>==\<close>: whatever the budget, the run has not returned and has
  sent no item, so no EOF and no Error. \<open>lexStart\<close> hands over to \<open>lexSection\<close> at byte 1,
  whose loop reads the second \<open>=\<close> and then \<open>EOF\<close> for ever: it has a case for an
  adornment and a case for an end of line, and none for the end of the input.
\<close>

theorem lexer_hangs_on_unterminated_adornment:
  "\<exists>l. run fuel (lex nm ''=='') = OutOfFuel l \<and> items l = []"
proof (cases fuel)
  case 0
  then show ?thesis by (simp add: run_def lex_def)
next
  case (Suc n)
  let ?l1 = "\<lparr>name = nm, input = ''=='', state = Some LexSection, pos = 1, start = 0,
      width = 1, lastPos = 0, items = [], line = 1\<rparr>"
  have st: "lexStart ((lex nm ''=='')\<lparr>state := Some LexStart\<rparr>) =
      Returns (Some LexSection, ?l1\<lparr>state := Some LexStart\<rparr>)"
    by code_simp
  have sec: "\<exists>l'. lexSection m ?l1 = OutOfFuel l' \<and> items l' = []" for m
  proof (cases m)
    case 0
    then show ?thesis
      by (simp add: lexSection_def log_slice_nonempty_def log_slice_def peek_def next_def
          backup_def isEndOfLine_def)
  next
    case (Suc k)
    let ?l2 = "?l1\<lparr>width := 1, pos := 2\<rparr>"
    have "int (length (input ?l2)) \<le> pos ?l2" by simp
    from lexSection_loop_spins_at_end[OF this, of k]
    obtain l' where "lexSection_loop k ?l2 = OutOfFuel l'" "items l' = []" by auto
    with Suc show ?thesis
      by (simp add: lexSection_def log_slice_nonempty_def log_slice_def peek_def next_def
          backup_def isEndOfLine_def isSectionAdornment_def sectionAdornments_def)
  qed
  show ?thesis
  proof (cases n)
    case 0
    with Suc st show ?thesis by (simp add: run_def)
  next
    case (Suc m)
    from sec[of m] obtain l' where "lexSection m ?l1 = OutOfFuel l'" "items l' = []" by auto
    with Suc \<open>fuel = Suc n\<close> st show ?thesis by (simp add: run_def)
  qed
qed

text \<open>
  Claim C7, as the code has it: for every item sent, \<open>Position\<close> is the byte offset,
  counted from 0, at which the text of the item begins in the input (the text is the
  input from \<open>Position\<close> on, for the length of the text), and \<open>Line\<close> is at least 1.
\<close>

theorem position_is_byte_offset_of_text:
  "\<forall>t\<in>set (emitted (run fuel (lex nm inp))).
     0 \<le> Position t \<and> Position t + int (length (Value t)) \<le> int (length inp) \<and>
     Value t = slice inp (Position t) (Position t + int (length (Value t))) \<and>
     1 \<le> Line t"
  using emitted_items_ok[of inp fuel nm]
  by (auto simp: items_ok_def item_ok_def list_all_iff)

theorem position_is_byte_offset_of_text_witness:
  "emitted (run 2 (lex ''doc'' (''ab'' @ [NL] @ ''cd''))) \<noteq> [] \<and>
   Position (last (butlast (emitted (run 2 (lex ''doc'' (''ab'' @ [NL] @ ''cd'')))))) = 3 \<and>
   Value (last (butlast (emitted (run 2 (lex ''doc'' (''ab'' @ [NL] @ ''cd'')))))) = ''cd'' \<and>
   slice (''ab'' @ [NL] @ ''cd'') 3 5 = ''cd''"
proof -
  have e: "emitted (run 2 (lex ''doc'' (''ab'' @ [NL] @ ''cd''))) =
      [\<lparr>ElementName = ''itemParagraph'', ElementType = itemParagraph, Position = 0, Line = 2,
        Value = ''ab''\<rparr>,
       \<lparr>ElementName = ''itemParagraph'', ElementType = itemParagraph, Position = 3, Line = 2,
        Value = ''cd''\<rparr>,
       \<lparr>ElementName = ''itemEOF'', ElementType = itemEOF, Position = 5, Line = 2,
        Value = []\<rparr>]"
    by code_simp
  from position_is_byte_offset_of_text[of 2 "''doc''" "''ab'' @ [NL] @ ''cd''"] e
  show ?thesis by (simp add: slice_def)
qed

text \<open>
  Claim C7 as stated fails: the Paragraph of \<open>Paragraph text\<close>, newline begins at the first
  byte of line 1, and it is sent with \<open>Position = 0\<close> and \<open>Line = 2\<close>.
\<close>

theorem paragraph_line_and_position_counterexample:
  "emitted (run 2 (lex ''doc'' (''Paragraph text'' @ [NL]))) =
     [\<lparr>ElementName = ''itemParagraph'', ElementType = itemParagraph, Position = 0, Line = 2,
       Value = ''Paragraph text''\<rparr>,
      \<lparr>ElementName = ''itemEOF'', ElementType = itemEOF, Position = 15, Line = 2,
       Value = []\<rparr>]"
  by code_simp

text \<open>
  Claim C8, as the code has it: an item has no id. The items of a run are told apart by
  \<open>Position\<close>, which increases strictly in the order they are sent.
\<close>

theorem positions_strictly_increase:
  "sorted_wrt (<) (map Position (emitted (run fuel (lex nm inp))))"
  using emitted_items_ok[of inp fuel nm] by (simp add: items_ok_def)

text \<open>
  Claim C8 as stated fails: the item struct has two integer fields, \<open>Position\<close> and
  \<open>Line\<close>. On \<open>a\<close>, newline, \<open>b\<close>, newline the three items carry the positions 0, 2, 4
  and the lines 2, 3, 3: no field holds 1, 2, 3.
\<close>

theorem no_field_numbers_the_items:
  "map Position (emitted (run 2 (lex ''doc'' (''a'' @ [NL] @ ''b'' @ [NL])))) = [0, 2, 4] \<and>
   map Line (emitted (run 2 (lex ''doc'' (''a'' @ [NL] @ ''b'' @ [NL])))) = [2, 3, 3] \<and>
   map Position (emitted (run 2 (lex ''doc'' (''a'' @ [NL] @ ''b'' @ [NL])))) \<noteq> [1, 2, 3] \<and>
   map Line (emitted (run 2 (lex ''doc'' (''a'' @ [NL] @ ''b'' @ [NL])))) \<noteq> [1, 2, 3]"
  by code_simp

text \<open>
  Claim C10: for every input and every budget, every item sent has the kind EOF,
  Paragraph or SectionAdornment; Title, Error, SystemMessage, Blockquote, LiteralBlock,
  Space and BlankLine are never sent.
\<close>

theorem only_three_kinds_emitted:
  "\<forall>t\<in>set (emitted (run fuel (lex nm inp))).
     ElementType t \<in> {itemEOF, itemParagraph, itemSectionAdornment} \<and>
     ElementType t \<notin> {itemTitle, itemError, itemSystemMessage, itemBlockquote,
                       itemLiteralBlock, itemSpace, itemBlankLine}"
  using emitted_items_ok[of inp fuel nm]
  by (auto simp: items_ok_def item_ok_def list_all_iff)

theorem only_three_kinds_emitted_witness:
  "kinds (emitted (run 5 (lex ''doc'' (''=='' @ [NL] @ ''ab'')))) =
     [itemSectionAdornment, itemParagraph, itemEOF] \<and>
   ElementType (hd (emitted (run 5 (lex ''doc'' (''=='' @ [NL] @ ''ab''))))) \<in>
     {itemEOF, itemParagraph, itemSectionAdornment}"
proof -
  have e: "kinds (emitted (run 5 (lex ''doc'' (''=='' @ [NL] @ ''ab'')))) =
     [itemSectionAdornment, itemParagraph, itemEOF]"
    by code_simp
  then have "hd (emitted (run 5 (lex ''doc'' (''=='' @ [NL] @ ''ab'')))) \<in>
     set (emitted (run 5 (lex ''doc'' (''=='' @ [NL] @ ''ab''))))"
    by (cases "emitted (run 5 (lex ''doc'' (''=='' @ [NL] @ ''ab'')))") (simp_all add: kinds_def)
  with only_three_kinds_emitted[of 5 "''doc''" "''=='' @ [NL] @ ''ab''"] e
  show ?thesis by blast
qed

end
